theory Spec2Isabelle
  imports Complex_Main
begin

section \<open>Values\<close>

text \<open>
  Numbers. A number is NaN, one of the two infinities, the negative zero, an integer
  (\<open>Fin\<close>) or a finite number with a fractional part (\<open>Frac\<close>, given by its value, a
  rational that is not an integer). Integers are kept exact: the loss of precision
  beyond 2^53 is outside the model. The sign of a zero that an addition, a subtraction,
  \<open>Math.min\<close> or \<open>Math.max\<close> returns is not tracked: they return the positive zero
  \<open>Fin 0\<close>.
\<close>

datatype jsnum = NaN | NegInf | Fin int | PosInf | NegZero | Frac rat

text \<open>
  The double nearest to a rational, ties to the even significand: what an addition or a
  subtraction with a fractional operand returns for its exact result. \<open>bit_length n\<close> is
  the number of binary digits of a positive \<open>n\<close>, \<open>floor_log2 a\<close> the exponent \<open>e\<close> with
  \<open>2^e \<le> a < 2^(e+1)\<close> of a positive \<open>a\<close>. Doubles have 53 significant bits, exponents
  from -1022 (below it the spacing stays 2^-1074) and overflow to infinity at 2^1024.
\<close>

function bit_length :: "int \<Rightarrow> int" where
  "bit_length n = (if n \<le> 0 then 0 else 1 + bit_length (n div 2))"
  by pat_completeness auto
termination
  by (relation "measure nat") auto

declare bit_length.simps [simp del]

definition floor_log2 :: "rat \<Rightarrow> int" where
  "floor_log2 a =
     (let k = bit_length (fst (quotient_of a)) - bit_length (snd (quotient_of a))
      in if 2 powi k \<le> a then k else k - 1)"

definition round_half_even :: "rat \<Rightarrow> int" where
  "round_half_even s =
     (let f = \<lfloor>s\<rfloor>;
          r = s - of_int f
      in if r < 1 / 2 then f
         else if 1 / 2 < r then f + 1
         else if even f then f else f + 1)"

definition number_of_rat :: "rat \<Rightarrow> jsnum" where
  "number_of_rat v = (if of_int \<lfloor>v\<rfloor> = v then Fin \<lfloor>v\<rfloor> else Frac v)"

definition round_number :: "rat \<Rightarrow> jsnum" where
  "round_number q =
     (if q = 0 then Fin 0
      else (let a = \<bar>q\<bar>;
                e = max (floor_log2 a) (- 1022);
                ulp = 2 powi (e - 52);
                v = of_int (round_half_even (a / ulp)) * ulp
            in if 2 powi 1024 \<le> v then (if 0 < q then PosInf else NegInf)
               else number_of_rat (if 0 < q then v else - v)))"

text \<open>\<open>a + b\<close> and \<open>a - b\<close>; adding or subtracting zero returns the other operand.\<close>

fun num_add :: "jsnum \<Rightarrow> jsnum \<Rightarrow> jsnum" where
  "num_add (Fin a) (Fin b) = Fin (a + b)"
| "num_add NaN _ = NaN"
| "num_add _ NaN = NaN"
| "num_add NegZero NegZero = Fin 0"
| "num_add NegZero (Fin b) = Fin b"
| "num_add (Fin a) NegZero = Fin a"
| "num_add PosInf NegInf = NaN"
| "num_add NegInf PosInf = NaN"
| "num_add PosInf _ = PosInf"
| "num_add _ PosInf = PosInf"
| "num_add NegInf _ = NegInf"
| "num_add _ NegInf = NegInf"
| "num_add NegZero (Frac q) = Frac q"
| "num_add (Frac p) NegZero = Frac p"
| "num_add (Fin a) (Frac q) = (if a = 0 then Frac q else round_number (of_int a + q))"
| "num_add (Frac p) (Fin b) = (if b = 0 then Frac p else round_number (p + of_int b))"
| "num_add (Frac p) (Frac q) = round_number (p + q)"

fun num_sub :: "jsnum \<Rightarrow> jsnum \<Rightarrow> jsnum" where
  "num_sub (Fin a) (Fin b) = Fin (a - b)"
| "num_sub NaN _ = NaN"
| "num_sub _ NaN = NaN"
| "num_sub NegZero NegZero = Fin 0"
| "num_sub NegZero (Fin b) = Fin (- b)"
| "num_sub (Fin a) NegZero = Fin a"
| "num_sub PosInf PosInf = NaN"
| "num_sub NegInf NegInf = NaN"
| "num_sub PosInf _ = PosInf"
| "num_sub _ NegInf = PosInf"
| "num_sub NegInf _ = NegInf"
| "num_sub _ PosInf = NegInf"
| "num_sub NegZero (Frac q) = Frac (- q)"
| "num_sub (Frac p) NegZero = Frac p"
| "num_sub (Fin a) (Frac q) = (if a = 0 then Frac (- q) else round_number (of_int a - q))"
| "num_sub (Frac p) (Fin b) = (if b = 0 then Frac p else round_number (p - of_int b))"
| "num_sub (Frac p) (Frac q) = round_number (p - q)"

text \<open>\<open>- a\<close>.\<close>

fun num_neg :: "jsnum \<Rightarrow> jsnum" where
  "num_neg NaN = NaN"
| "num_neg NegInf = PosInf"
| "num_neg PosInf = NegInf"
| "num_neg (Fin a) = (if a = 0 then NegZero else Fin (- a))"
| "num_neg NegZero = Fin 0"
| "num_neg (Frac q) = Frac (- q)"

text \<open>\<open>a < b\<close> of the language: false as soon as one side is NaN.\<close>

fun num_lt :: "jsnum \<Rightarrow> jsnum \<Rightarrow> bool" where
  "num_lt (Fin a) (Fin b) = (a < b)"
| "num_lt NaN _ = False"
| "num_lt _ NaN = False"
| "num_lt NegZero NegZero = False"
| "num_lt NegZero (Fin b) = (0 < b)"
| "num_lt (Fin a) NegZero = (a < 0)"
| "num_lt _ NegInf = False"
| "num_lt NegInf _ = True"
| "num_lt PosInf _ = False"
| "num_lt _ PosInf = True"
| "num_lt NegZero (Frac q) = (0 < q)"
| "num_lt (Frac p) NegZero = (p < 0)"
| "num_lt (Fin a) (Frac q) = (of_int a < q)"
| "num_lt (Frac p) (Fin b) = (p < of_int b)"
| "num_lt (Frac p) (Frac q) = (p < q)"

definition num_gt :: "jsnum \<Rightarrow> jsnum \<Rightarrow> bool" where
  "num_gt a b = num_lt b a"

text \<open>\<open>a >= b\<close>: true when \<open>b < a\<close> or the two are equal numbers, false with a NaN.\<close>

fun num_ge :: "jsnum \<Rightarrow> jsnum \<Rightarrow> bool" where
  "num_ge (Fin a) (Fin b) = (b \<le> a)"
| "num_ge NaN _ = False"
| "num_ge _ NaN = False"
| "num_ge NegZero NegZero = True"
| "num_ge NegZero (Fin b) = (b \<le> 0)"
| "num_ge (Fin a) NegZero = (0 \<le> a)"
| "num_ge PosInf _ = True"
| "num_ge _ NegInf = True"
| "num_ge NegInf _ = False"
| "num_ge _ PosInf = False"
| "num_ge NegZero (Frac q) = (q \<le> 0)"
| "num_ge (Frac p) NegZero = (0 \<le> p)"
| "num_ge (Fin a) (Frac q) = (q \<le> of_int a)"
| "num_ge (Frac p) (Fin b) = (of_int b \<le> p)"
| "num_ge (Frac p) (Frac q) = (q \<le> p)"

text \<open>\<open>Math.min\<close> and \<open>Math.max\<close>: NaN as soon as one argument is NaN.\<close>

fun nativeMin :: "jsnum \<Rightarrow> jsnum \<Rightarrow> jsnum" where
  "nativeMin (Fin a) (Fin b) = Fin (min a b)"
| "nativeMin NaN _ = NaN"
| "nativeMin _ NaN = NaN"
| "nativeMin NegZero NegZero = Fin 0"
| "nativeMin NegZero (Fin b) = Fin (min 0 b)"
| "nativeMin (Fin a) NegZero = Fin (min a 0)"
| "nativeMin NegInf _ = NegInf"
| "nativeMin _ NegInf = NegInf"
| "nativeMin PosInf b = b"
| "nativeMin a PosInf = a"
| "nativeMin NegZero (Frac q) = (if q < 0 then Frac q else Fin 0)"
| "nativeMin (Frac p) NegZero = (if p < 0 then Frac p else Fin 0)"
| "nativeMin (Fin a) (Frac q) = (if q < of_int a then Frac q else Fin a)"
| "nativeMin (Frac p) (Fin b) = (if p < of_int b then Frac p else Fin b)"
| "nativeMin (Frac p) (Frac q) = Frac (min p q)"

fun nativeMax :: "jsnum \<Rightarrow> jsnum \<Rightarrow> jsnum" where
  "nativeMax (Fin a) (Fin b) = Fin (max a b)"
| "nativeMax NaN _ = NaN"
| "nativeMax _ NaN = NaN"
| "nativeMax NegZero NegZero = Fin 0"
| "nativeMax NegZero (Fin b) = Fin (max 0 b)"
| "nativeMax (Fin a) NegZero = Fin (max a 0)"
| "nativeMax PosInf _ = PosInf"
| "nativeMax _ PosInf = PosInf"
| "nativeMax NegInf b = b"
| "nativeMax a NegInf = a"
| "nativeMax NegZero (Frac q) = (if 0 < q then Frac q else Fin 0)"
| "nativeMax (Frac p) NegZero = (if 0 < p then Frac p else Fin 0)"
| "nativeMax (Fin a) (Frac q) = (if of_int a < q then Frac q else Fin a)"
| "nativeMax (Frac p) (Fin b) = (if of_int b < p then Frac p else Fin b)"
| "nativeMax (Frac p) (Frac q) = Frac (max p q)"

text \<open>Truthiness of a number: zero, negative zero and NaN are falsy.\<close>

fun num_truthy :: "jsnum \<Rightarrow> bool" where
  "num_truthy NaN = False"
| "num_truthy NegZero = False"
| "num_truthy (Fin a) = (a \<noteq> 0)"
| "num_truthy _ = True"

text \<open>\<open>x || 0\<close> on a number.\<close>

definition or_zero :: "jsnum \<Rightarrow> jsnum" where
  "or_zero x = (if num_truthy x then x else Fin 0)"

text \<open>
  \<open>Math.floor\<close>: the greatest integer below a number with a fractional part; every
  other number is returned as it is.
\<close>

fun floor_num :: "jsnum \<Rightarrow> jsnum" where
  "floor_num (Frac q) = Fin \<lfloor>q\<rfloor>"
| "floor_num x = x"

text \<open>
  Values. An object is the list of its own enumerable properties in key order, an array
  the list of its elements. Functions are not values of the model: iteratees and
  deferred actions are HOL functions kept beside the values.
\<close>

datatype jsval =
    Undefined
  | Null
  | Boolean bool
  | Number jsnum
  | String string
  | Array "jsval list"
  | Object "(string \<times> jsval) list"

fun truthy :: "jsval \<Rightarrow> bool" where
  "truthy Undefined = False"
| "truthy Null = False"
| "truthy (Boolean b) = b"
| "truthy (Number x) = num_truthy x"
| "truthy (String s) = (s \<noteq> [])"
| "truthy (Array _) = True"
| "truthy (Object _) = True"


text \<open>\<open>array[index]\<close>: the element, or \<open>undefined\<close> outside the array.\<close>

fun array_get :: "jsval list \<Rightarrow> jsnum \<Rightarrow> jsval" where
  "array_get xs (Fin i) = (if 0 \<le> i \<and> i < int (length xs) then xs ! nat i else Undefined)"
| "array_get xs NegZero = (if xs = [] then Undefined else xs ! 0)"
| "array_get xs _ = Undefined"


section \<open>The lazy wrapper\<close>

text \<open>
  The entries of \<open>__iteratees__\<close>. The engine's four iteratee methods are numbered by
  their position in \<open>['dropWhile', 'filter', 'map', 'takeWhile']\<close>; the first three
  numbers have the names below in the source.
\<close>

datatype lazy_type = LAZY_DROP_WHILE_FLAG | LAZY_FILTER_FLAG | LAZY_MAP_FLAG | LAZY_TAKE_WHILE

record data =
  data_done :: bool
  data_count :: int
  data_index :: jsnum
  data_iteratee :: "jsval \<Rightarrow> jsval"
  data_limit :: jsnum
  data_type :: lazy_type

text \<open>
  The entries are objects that wrappers share: \<open>arrayCopy\<close> copies the array of
  references, not the entries. They live in a store; a wrapper holds their addresses.
  \<open>next_ref\<close> is the next free address.
\<close>

record heap =
  cells :: "nat \<Rightarrow> data"
  next_ref :: nat

definition heap_set :: "heap \<Rightarrow> nat \<Rightarrow> data \<Rightarrow> heap" where
  "heap_set h r d = h\<lparr>cells := (cells h)(r := d)\<rparr>"

definition heap_new :: "heap \<Rightarrow> data \<Rightarrow> nat \<times> heap" where
  "heap_new h d = (next_ref h, h\<lparr>cells := (cells h)(next_ref h := d), next_ref := Suc (next_ref h)\<rparr>)"

datatype view_type = drop_view | dropRight_view | take_view | takeRight_view

record view =
  view_size :: jsnum
  view_type :: view_type

text \<open>
  A deferred action \<open>{func, args, thisArg}\<close> is kept as the function that
  \<open>baseWrapperValue\<close> applies to the running result,
  \<open>\<lambda>result. func.apply(thisArg, [result] ++ args)\<close>.
\<close>

type_synonym action = "jsval \<Rightarrow> jsval"

text \<open>
  The wrappers. \<open>Plain v\<close> is an unwrapped value in a \<open>__wrapped__\<close> slot. The field
  \<open>__dropCount__\<close> of the lazy wrapper is written by the constructor only and read
  nowhere; it is left out.
\<close>

datatype wrapper =
    Plain jsval
  | LodashWrapper (lw_wrapped: wrapper) (lw_actions: "action list") (lw_chain: bool)
  | LazyWrapper (wrapped: wrapper) (actions: "action list option") (dir: int)
      (filtered: bool) (iteratees: "nat list option") (takeCount: jsnum)
      (views: "view list option")

datatype error = TypeError | WrapperAsValue

text \<open>\<open>new LazyWrapper(value)\<close>.\<close>

definition new_LazyWrapper :: "wrapper \<Rightarrow> wrapper" where
  "new_LazyWrapper v = LazyWrapper v None 1 False None PosInf None"

definition set_actions :: "wrapper \<Rightarrow> action list option \<Rightarrow> wrapper" where
  "set_actions r a =
     LazyWrapper (wrapped r) a (dir r) (filtered r) (iteratees r) (takeCount r) (views r)"

definition set_dir :: "wrapper \<Rightarrow> int \<Rightarrow> wrapper" where
  "set_dir r d =
     LazyWrapper (wrapped r) (actions r) d (filtered r) (iteratees r) (takeCount r) (views r)"

definition set_filtered :: "wrapper \<Rightarrow> bool \<Rightarrow> wrapper" where
  "set_filtered r f =
     LazyWrapper (wrapped r) (actions r) (dir r) f (iteratees r) (takeCount r) (views r)"

definition set_iteratees :: "wrapper \<Rightarrow> nat list option \<Rightarrow> wrapper" where
  "set_iteratees r i =
     LazyWrapper (wrapped r) (actions r) (dir r) (filtered r) i (takeCount r) (views r)"

definition set_takeCount :: "wrapper \<Rightarrow> jsnum \<Rightarrow> wrapper" where
  "set_takeCount r t =
     LazyWrapper (wrapped r) (actions r) (dir r) (filtered r) (iteratees r) t (views r)"

definition set_views :: "wrapper \<Rightarrow> view list option \<Rightarrow> wrapper" where
  "set_views r v =
     LazyWrapper (wrapped r) (actions r) (dir r) (filtered r) (iteratees r) (takeCount r) v"

primrec arrayCopy :: "'a list \<Rightarrow> 'a list" where
  "arrayCopy [] = []"
| "arrayCopy (x # xs) = x # arrayCopy xs"

definition lazyClone :: "wrapper \<Rightarrow> wrapper" where
  "lazyClone this =
     (let result = new_LazyWrapper (wrapped this);
          result = set_actions result (map_option arrayCopy (actions this));
          result = set_dir result (dir this);
          result = set_filtered result (filtered this);
          result = set_iteratees result (map_option arrayCopy (iteratees this));
          result = set_takeCount result (takeCount this);
          result = set_views result (map_option arrayCopy (views this))
      in result)"

definition lazyReverse :: "wrapper \<Rightarrow> wrapper" where
  "lazyReverse this =
     (if filtered this
      then set_filtered (set_dir (new_LazyWrapper this) (- 1)) True
      else (let result = lazyClone this in set_dir result (dir result * (- 1))))"

fun getView :: "jsnum \<Rightarrow> jsnum \<Rightarrow> view list \<Rightarrow> jsnum \<times> jsnum" where
  "getView start end [] = (start, end)"
| "getView start end (d # transforms) =
     (let size = view_size d in
      case view_type d of
        drop_view \<Rightarrow> getView (num_add start size) end transforms
      | dropRight_view \<Rightarrow> getView start (num_sub end size) transforms
      | take_view \<Rightarrow> getView start (nativeMin end (num_add start size)) transforms
      | takeRight_view \<Rightarrow> getView (nativeMax start (num_sub end size)) end transforms)"

text \<open>
  The inner loop of \<open>lazyValue\<close>, for the element at \<open>index\<close>. Its body handles one
  entry: the element goes on to the next entry (with the value a map entry computed),
  is skipped (\<open>continue outer\<close>) or ends the evaluation (\<open>break outer\<close>). An element that
  has passed every entry is emitted.
\<close>

datatype outcome = Emit jsval | ContinueOuter | BreakOuter

definition run_entry :: "bool \<Rightarrow> jsnum \<Rightarrow> nat \<Rightarrow> jsval \<Rightarrow> heap \<Rightarrow> outcome \<times> heap" where
  "run_entry isRight index r v h =
     (let d = cells h r in
      if data_type d = LAZY_DROP_WHILE_FLAG then
        (let d1 = (if data_done d \<and>
                      (if isRight then num_gt index (data_index d)
                       else num_lt index (data_index d))
                   then d\<lparr>data_count := 0, data_done := False\<rparr> else d);
             d2 = d1\<lparr>data_index := index\<rparr>
         in if \<not> data_done d2 then
              (let limit = data_limit d2;
                   d3 = (if num_gt limit (Fin (- 1))
                         then d2\<lparr>data_done := num_ge (Fin (data_count d2)) limit,
                                 data_count := data_count d2 + 1\<rparr>
                         else d2\<lparr>data_done := \<not> truthy (data_iteratee d2 v)\<rparr>)
               in if \<not> data_done d3 then (ContinueOuter, heap_set h r d3)
                  else (Emit v, heap_set h r d3))
            else (Emit v, heap_set h r d2))
      else
        (let computed = data_iteratee d v in
         if data_type d = LAZY_MAP_FLAG then (Emit computed, h)
         else if \<not> truthy computed then
           (if data_type d = LAZY_FILTER_FLAG then (ContinueOuter, h) else (BreakOuter, h))
         else (Emit v, h)))"

fun run_iteratees :: "bool \<Rightarrow> jsnum \<Rightarrow> nat list \<Rightarrow> jsval \<Rightarrow> heap \<Rightarrow> outcome \<times> heap" where
  "run_iteratees isRight index [] v h = (Emit v, h)"
| "run_iteratees isRight index (r # rs) v h =
     (case run_entry isRight index r v h of
        (Emit v', h') \<Rightarrow> run_iteratees isRight index rs v' h'
      | (ContinueOuter, h') \<Rightarrow> (ContinueOuter, h')
      | (BreakOuter, h') \<Rightarrow> (BreakOuter, h'))"

text \<open>
  The outer loop \<open>while (length-- && resIndex < takeCount)\<close>. \<open>resIndex\<close> is the
  length of \<open>result\<close> throughout, since \<open>result[resIndex++] = value\<close> is the only
  write to either. The loop need not end for arbitrary arguments, so it is a partial
  function: \<open>None\<close> is a run that does not return.
\<close>

partial_function (option) lazy_loop ::
  "jsval list \<Rightarrow> int \<Rightarrow> bool \<Rightarrow> jsnum \<Rightarrow> nat list \<Rightarrow> jsnum \<Rightarrow> jsnum \<Rightarrow> jsval list \<Rightarrow> heap
     \<Rightarrow> (jsval list \<times> heap) option" where
  "lazy_loop array d isRight tc its len index result h =
     (if num_truthy len \<and> num_lt (Fin (int (length result))) tc then
        (case run_iteratees isRight (num_add index (Fin d)) its
                (array_get array (num_add index (Fin d))) h of
           (Emit v, h') \<Rightarrow>
             lazy_loop array d isRight tc its (num_sub len (Fin 1)) (num_add index (Fin d))
               (result @ [v]) h'
         | (ContinueOuter, h') \<Rightarrow>
             lazy_loop array d isRight tc its (num_sub len (Fin 1)) (num_add index (Fin d))
               result h'
         | (BreakOuter, h') \<Rightarrow> Some (result, h'))
      else Some (result, h))"

declare lazy_loop.simps [code]

text \<open>
  The loop of \<open>baseWrapperValue\<close> over the actions, and \<open>baseWrapperValue\<close> on a value
  that is not a lazy wrapper. A lazy wrapper's \<open>__actions__\<close> may be \<open>null\<close>; reading
  its \<open>length\<close> then throws a TypeError.
\<close>

fun run_actions :: "jsval \<Rightarrow> action list \<Rightarrow> jsval" where
  "run_actions result [] = result"
| "run_actions result (a # as) = run_actions (a result) as"

definition baseWrapperValue :: "jsval \<Rightarrow> action list option \<Rightarrow> error + jsval" where
  "baseWrapperValue v acts =
     (case acts of None \<Rightarrow> Inl TypeError | Some as \<Rightarrow> Inr (run_actions v as))"

text \<open>
  \<open>lazyValue\<close>, from the value that \<open>this.__wrapped__.value()\<close> returned.
\<close>

definition lazyValue :: "wrapper \<Rightarrow> jsval \<Rightarrow> heap \<Rightarrow> ((error + jsval) \<times> heap) option" where
  "lazyValue this v h =
     (case v of
        Array array \<Rightarrow>
          (let isRight = dir this < 0;
               vw = getView (Fin 0) (Fin (int (length array)))
                      (case views this of None \<Rightarrow> [] | Some ts \<Rightarrow> ts);
               start = fst vw;
               end = snd vw;
               len = num_sub end start;
               index = (if isRight then end else num_sub start (Fin 1));
               tc = nativeMin len (takeCount this);
               its = (case iteratees this of None \<Rightarrow> [] | Some is \<Rightarrow> is)
           in map_option (\<lambda>(res, h'). (Inr (Array res), h'))
                (lazy_loop array (dir this) isRight tc its len index [] h))
      | _ \<Rightarrow> Some (baseWrapperValue v (actions this), h))"

text \<open>
  The method \<open>value()\<close> of a wrapper: \<open>wrapperValue\<close> on a \<open>LodashWrapper\<close> (which is
  \<open>baseWrapperValue\<close> of its fields, evaluating a lazy wrapper first), \<open>lazyValue\<close> on a
  \<open>LazyWrapper\<close>. A plain value has no such method. A \<open>LodashWrapper\<close> directly inside
  a \<open>LodashWrapper\<close> would be handed to the actions as an object; no chain method
  builds one and the model has no value for it.
\<close>

fun wrapper_value :: "wrapper \<Rightarrow> heap \<Rightarrow> ((error + jsval) \<times> heap) option" where
  "wrapper_value (Plain v) h = Some (Inl TypeError, h)"
| "wrapper_value (LodashWrapper w acts c) h =
     (case w of
        Plain v \<Rightarrow> Some (baseWrapperValue v (Some acts), h)
      | LodashWrapper _ _ _ \<Rightarrow> Some (Inl WrapperAsValue, h)
      | LazyWrapper _ _ _ _ _ _ _ \<Rightarrow>
          (case wrapper_value w h of
             None \<Rightarrow> None
           | Some (Inl e, h') \<Rightarrow> Some (Inl e, h')
           | Some (Inr v, h') \<Rightarrow> Some (baseWrapperValue v (Some acts), h')))"
| "wrapper_value (LazyWrapper w acts d f its tc vs) h =
     (case wrapper_value w h of
        None \<Rightarrow> None
      | Some (Inl e, h') \<Rightarrow> Some (Inl e, h')
      | Some (Inr v, h') \<Rightarrow> lazyValue (LazyWrapper w acts d f its tc vs) v h')"


section \<open>The iteratee adapter\<close>

text \<open>
  Property keys that are array indices, in their canonical decimal spelling.
\<close>

definition digit_of :: "char \<Rightarrow> nat option" where
  "digit_of c =
     (let n = (of_char c :: nat) in if 48 \<le> n \<and> n \<le> 57 then Some (n - 48) else None)"

fun parse_digits :: "string \<Rightarrow> nat \<Rightarrow> nat option" where
  "parse_digits [] acc = Some acc"
| "parse_digits (c # cs) acc =
     (case digit_of c of None \<Rightarrow> None | Some k \<Rightarrow> parse_digits cs (10 * acc + k))"

definition index_of_key :: "string \<Rightarrow> nat option" where
  "index_of_key key =
     (if key = [] \<or> (hd key = CHR ''0'' \<and> tl key \<noteq> []) then None else parse_digits key 0)"

text \<open>
  \<open>object[key]\<close> and \<open>key in toObject(object)\<close>, for an \<open>object\<close> that is neither
  \<open>null\<close> nor \<open>undefined\<close> (every call below is guarded by \<open>object != null\<close>). Only own
  properties are modelled: the properties of an object, the elements and the length of
  an array, the characters and the length of a string. Inherited properties (methods of
  the prototypes) are outside the model. \<open>toObject\<close> boxes a primitive; the box shows the
  same properties as the primitive, so it is the identity here.
\<close>

fun get_prop :: "jsval \<Rightarrow> string \<Rightarrow> jsval" where
  "get_prop (Object ps) key = (case map_of ps key of None \<Rightarrow> Undefined | Some v \<Rightarrow> v)"
| "get_prop (Array xs) key =
     (if key = ''length'' then Number (Fin (int (length xs)))
      else case index_of_key key of
             None \<Rightarrow> Undefined
           | Some i \<Rightarrow> (if i < length xs then xs ! i else Undefined))"
| "get_prop (String s) key =
     (if key = ''length'' then Number (Fin (int (length s)))
      else case index_of_key key of
             None \<Rightarrow> Undefined
           | Some i \<Rightarrow> (if i < length s then String [s ! i] else Undefined))"
| "get_prop _ key = Undefined"

fun has_prop :: "jsval \<Rightarrow> string \<Rightarrow> bool" where
  "has_prop (Object ps) key = (map_of ps key \<noteq> None)"
| "has_prop (Array xs) key =
     (key = ''length'' \<or> (case index_of_key key of None \<Rightarrow> False | Some i \<Rightarrow> i < length xs))"
| "has_prop (String s) key =
     (key = ''length'' \<or> (case index_of_key key of None \<Rightarrow> False | Some i \<Rightarrow> i < length s))"
| "has_prop _ key = False"

definition toObject :: "jsval \<Rightarrow> jsval" where
  "toObject v = v"

text \<open>\<open>value != null\<close>.\<close>

fun not_nullish :: "jsval \<Rightarrow> bool" where
  "not_nullish Undefined = False"
| "not_nullish Null = False"
| "not_nullish _ = True"

text \<open>\<open>lang_isObject\<close>.\<close>

fun isObject :: "jsval \<Rightarrow> bool" where
  "isObject (Array _) = True"
| "isObject (Object _) = True"
| "isObject _ = False"

text \<open>
  \<open>a === b\<close>. Two numbers are equal when neither is NaN and they are the same number,
  the two zeros being equal. Objects and arrays are compared by identity, which values
  do not carry: two object values stand for two distinct objects.
\<close>

fun num_eq :: "jsnum \<Rightarrow> jsnum \<Rightarrow> bool" where
  "num_eq NaN _ = False"
| "num_eq _ NaN = False"
| "num_eq NegZero b = (b = NegZero \<or> b = Fin 0)"
| "num_eq a NegZero = (a = Fin 0)"
| "num_eq a b = (a = b)"

fun strict_equals :: "jsval \<Rightarrow> jsval \<Rightarrow> bool" where
  "strict_equals Undefined Undefined = True"
| "strict_equals Null Null = True"
| "strict_equals (Boolean a) (Boolean b) = (a = b)"
| "strict_equals (Number a) (Number b) = num_eq a b"
| "strict_equals (String a) (String b) = (a = b)"
| "strict_equals _ _ = False"

text \<open>\<open>(1 / value) > 0\<close> on a number.\<close>

fun recip_positive :: "jsnum \<Rightarrow> bool" where
  "recip_positive (Fin a) = (0 \<le> a)"
| "recip_positive (Frac q) = (0 < q)"
| "recip_positive _ = False"

definition isStrictComparable :: "jsval \<Rightarrow> bool" where
  "isStrictComparable v =
     (strict_equals v v \<and>
      (if strict_equals v (Number (Fin 0))
       then (case v of Number x \<Rightarrow> recip_positive x | _ \<Rightarrow> False)
       else \<not> isObject v))"

text \<open>
  \<open>baseIsMatch\<close>. \<open>props\<close>, \<open>values\<close> and \<open>strictCompareFlags\<close> are parallel arrays;
  they are one list of triples here. \<open>baseIsEqual\<close> (the deep comparison, called with
  \<open>isLoose\<close>) is a parameter: the results below hold whatever it computes. A
  customizer returns a value, \<open>undefined\<close> meaning no decision.
\<close>

type_synonym customizer = "jsval \<Rightarrow> jsval \<Rightarrow> string \<Rightarrow> jsval"

fun baseIsMatch_first :: "jsval \<Rightarrow> (string \<times> jsval \<times> bool) list \<Rightarrow> bool \<Rightarrow> bool" where
  "baseIsMatch_first object [] noCustomizer = True"
| "baseIsMatch_first object ((key, srcValue, strict) # rest) noCustomizer =
     (if (if noCustomizer \<and> strict
          then \<not> strict_equals srcValue (get_prop object key)
          else \<not> has_prop object key)
      then False
      else baseIsMatch_first object rest noCustomizer)"

fun baseIsMatch_second ::
  "(jsval \<Rightarrow> jsval \<Rightarrow> bool) \<Rightarrow> jsval \<Rightarrow> (string \<times> jsval \<times> bool) list \<Rightarrow> customizer option \<Rightarrow>
     bool \<Rightarrow> bool"
where
  "baseIsMatch_second baseIsEqual object [] customizer noCustomizer = True"
| "baseIsMatch_second baseIsEqual object ((key, srcValue, strict) # rest) customizer noCustomizer =
     (let objValue = get_prop object key;
          result =
            (if noCustomizer \<and> strict
             then objValue \<noteq> Undefined \<or> has_prop object key
             else (let r = (case customizer of
                              None \<Rightarrow> Undefined
                            | Some c \<Rightarrow> c objValue srcValue key)
                   in if r = Undefined then baseIsEqual srcValue objValue else truthy r))
      in if \<not> result then False
         else baseIsMatch_second baseIsEqual object rest customizer noCustomizer)"

definition baseIsMatch ::
  "(jsval \<Rightarrow> jsval \<Rightarrow> bool) \<Rightarrow> jsval \<Rightarrow> (string \<times> jsval \<times> bool) list \<Rightarrow> customizer option \<Rightarrow> bool"
where
  "baseIsMatch baseIsEqual object triples customizer =
     (let noCustomizer = Option.is_none customizer
      in if \<not> baseIsMatch_first object triples noCustomizer then False
         else baseIsMatch_second baseIsEqual object triples customizer noCustomizer)"

text \<open>
  \<open>baseMatches\<close>. \<open>source\<close> is the pattern object, given by its own enumerable
  properties; \<open>keys(source)\<close> lists their keys. The function has three exits: the
  constant \<open>true\<close> for an empty pattern, the special case of a single key with a
  strictly comparable value, and the general closure over \<open>baseIsMatch\<close>.
\<close>

definition baseMatches_single :: "string \<Rightarrow> jsval \<Rightarrow> jsval \<Rightarrow> bool" where
  "baseMatches_single key v object =
     (not_nullish object \<and> strict_equals (get_prop object key) v \<and>
      (v \<noteq> Undefined \<or> has_prop (toObject object) key))"

definition baseMatches_general ::
  "(jsval \<Rightarrow> jsval \<Rightarrow> bool) \<Rightarrow> (string \<times> jsval) list \<Rightarrow> jsval \<Rightarrow> bool" where
  "baseMatches_general baseIsEqual source object =
     (let props = map fst source;
          triples = map (\<lambda>key. (key, get_prop (Object source) key,
                                  isStrictComparable (get_prop (Object source) key))) props
      in not_nullish object \<and> baseIsMatch baseIsEqual (toObject object) triples None)"

definition baseMatches ::
  "(jsval \<Rightarrow> jsval \<Rightarrow> bool) \<Rightarrow> (string \<times> jsval) list \<Rightarrow> jsval \<Rightarrow> bool" where
  "baseMatches baseIsEqual source =
     (let props = map fst source;
          n = length props
      in if n = 0 then (\<lambda>object. True)
         else if n = 1 \<and> isStrictComparable (get_prop (Object source) (props ! 0))
         then baseMatches_single (props ! 0) (get_prop (Object source) (props ! 0))
         else baseMatches_general baseIsEqual source)"

definition baseProperty :: "string \<Rightarrow> jsval \<Rightarrow> jsval" where
  "baseProperty key object = (if not_nullish object then get_prop object key else Undefined)"

definition identity :: "jsval \<Rightarrow> jsval" where
  "identity v = v"

text \<open>
  \<open>baseCallback(func, undefined, argCount)\<close>. The argument is a function, \<open>null\<close> or
  \<open>undefined\<close>, an object (a pattern) or a property name; \<open>typeof func\<close> is the
  constructor.
\<close>

datatype callback =
    Function "jsval \<Rightarrow> jsval"
  | Nullish
  | Pattern "(string \<times> jsval) list"
  | Path string

fun baseCallback :: "(jsval \<Rightarrow> jsval \<Rightarrow> bool) \<Rightarrow> callback \<Rightarrow> jsval \<Rightarrow> jsval" where
  "baseCallback baseIsEqual (Function f) = f"
| "baseCallback baseIsEqual Nullish = identity"
| "baseCallback baseIsEqual (Pattern source) = (\<lambda>object. Boolean (baseMatches baseIsEqual source object))"
| "baseCallback baseIsEqual (Path key) = baseProperty key"


section \<open>The chain methods of the lazy wrapper\<close>

text \<open>
  The size argument of \<open>drop\<close> and \<open>take\<close>, and the positions given to \<open>baseSlice\<close>.
  The code tests such an argument against \<open>null\<close> and \<open>undefined\<close> and otherwise only
  converts it to a number (\<open>n < 0\<close>, \<open>+n\<close>, \<open>n > length\<close>, \<open>Math.floor(n)\<close>). The
  conversion of a boolean, a string, an array or an object is the language's: it
  returns a number (1 for \<open>true\<close>, 16 for \<open>'0x10'\<close>, 2.5 for \<open>'2.5'\<close>, 2 for \<open>[2]\<close>, NaN
  for \<open>'abc'\<close> and for \<open>{}\<close>) or throws a TypeError, when an object has no primitive
  value (\<open>{toString: 1}\<close>, whose \<open>valueOf\<close> returns the object and whose \<open>toString\<close>
  cannot be called). An argument of these kinds is given by the outcome of its
  conversion, the same each time the code converts the argument.
\<close>

datatype argument = Undefined_arg | Null_arg | Num jsnum | Converted "error + jsnum"

text \<open>\<open>n == null\<close>.\<close>

fun is_null :: "argument \<Rightarrow> bool" where
  "is_null Undefined_arg = True"
| "is_null Null_arg = True"
| "is_null _ = False"

text \<open>\<open>ToNumber\<close>, as \<open>Math.floor(n)\<close>, \<open>n < 0\<close>, \<open>n > length\<close> and \<open>+n\<close> apply it.\<close>

fun to_number :: "argument \<Rightarrow> error + jsnum" where
  "to_number Undefined_arg = Inr NaN"
| "to_number Null_arg = Inr (Fin 0)"
| "to_number (Num x) = Inr x"
| "to_number (Converted c) = c"


text \<open>
  The four methods that take an iteratee. The entry stores
  \<open>baseCallback(iteratee, thisArg, 1)\<close>; the methods here receive that adapted function.
\<close>

definition lazy_iteratee_method ::
  "lazy_type \<Rightarrow> (jsval \<Rightarrow> jsval) \<Rightarrow> wrapper \<Rightarrow> heap \<Rightarrow> wrapper \<times> heap" where
  "lazy_iteratee_method type iteratee this h =
     (let isFilter = (type \<noteq> LAZY_MAP_FLAG);
          isDropWhile = (type = LAZY_DROP_WHILE_FLAG);
          filt = filtered this;
          result = (if filt \<and> isDropWhile then new_LazyWrapper this else lazyClone this);
          its = (case iteratees result of None \<Rightarrow> [] | Some is \<Rightarrow> is);
          (r, h') = heap_new h
            \<lparr>data_done = False, data_count = 0, data_index = Fin 0,
             data_iteratee = iteratee, data_limit = Fin (- 1), data_type = type\<rparr>;
          result = set_iteratees result (Some (its @ [r]));
          result = set_filtered result (filt \<or> isFilter)
      in (result, h'))"

definition lazy_dropWhile :: "(jsval \<Rightarrow> jsval) \<Rightarrow> wrapper \<Rightarrow> heap \<Rightarrow> wrapper \<times> heap" where
  "lazy_dropWhile = lazy_iteratee_method LAZY_DROP_WHILE_FLAG"

definition lazy_filter :: "(jsval \<Rightarrow> jsval) \<Rightarrow> wrapper \<Rightarrow> heap \<Rightarrow> wrapper \<times> heap" where
  "lazy_filter = lazy_iteratee_method LAZY_FILTER_FLAG"

definition lazy_map :: "(jsval \<Rightarrow> jsval) \<Rightarrow> wrapper \<Rightarrow> heap \<Rightarrow> wrapper \<times> heap" where
  "lazy_map = lazy_iteratee_method LAZY_MAP_FLAG"

definition lazy_takeWhile :: "(jsval \<Rightarrow> jsval) \<Rightarrow> wrapper \<Rightarrow> heap \<Rightarrow> wrapper \<times> heap" where
  "lazy_takeWhile = lazy_iteratee_method LAZY_TAKE_WHILE"

text \<open>
  \<open>n == null ? 1 : nativeMax(floor(n) || 0, 0)\<close>, or the error that the conversion
  of \<open>n\<close> throws.
\<close>

definition size_of :: "argument \<Rightarrow> error + jsnum" where
  "size_of n =
     (if is_null n then Inr (Fin 1)
      else (case to_number n of
              Inl e \<Rightarrow> Inl e
            | Inr x \<Rightarrow> Inr (nativeMax (or_zero (floor_num x)) (Fin 0))))"

text \<open>
  \<open>drop\<close> and \<open>take\<close>: one function in the source, \<open>index\<close> being 0 for \<open>drop\<close> and
  1 for \<open>take\<close>. The size is computed after \<open>result\<close>, so the store holds the entry
  of \<open>this.dropWhile()\<close> also when the conversion throws.
\<close>

definition lazy_drop_take ::
  "bool \<Rightarrow> argument \<Rightarrow> wrapper \<Rightarrow> heap \<Rightarrow> (error + wrapper) \<times> heap" where
  "lazy_drop_take isTake n this h =
     (let filt = filtered this;
          (result, h1) = (if filt \<and> \<not> isTake then lazy_dropWhile identity this h
                          else (lazyClone this, h))
      in case size_of n of
           Inl e \<Rightarrow> (Inl e, h1)
         | Inr n \<Rightarrow>
             (if filt then
                (if isTake then (Inr (set_takeCount result (nativeMin (takeCount result) n)), h1)
                 else (let r = last (case iteratees result of None \<Rightarrow> [] | Some is \<Rightarrow> is)
                       in (Inr result, heap_set h1 r ((cells h1 r)\<lparr>data_limit := n\<rparr>))))
              else
                (let vs = (case views result of None \<Rightarrow> [] | Some ts \<Rightarrow> ts);
                     ty = (if isTake
                           then (if dir result < 0 then takeRight_view else take_view)
                           else (if dir result < 0 then dropRight_view else drop_view))
                 in (Inr (set_views result (Some (vs @ [\<lparr>view_size = n, view_type = ty\<rparr>]))),
                     h1))))"

definition lazy_drop :: "argument \<Rightarrow> wrapper \<Rightarrow> heap \<Rightarrow> (error + wrapper) \<times> heap" where
  "lazy_drop = lazy_drop_take False"

definition lazy_take :: "argument \<Rightarrow> wrapper \<Rightarrow> heap \<Rightarrow> (error + wrapper) \<times> heap" where
  "lazy_take = lazy_drop_take True"

text \<open>
  \<open>this.reverse()[methodName](n).reverse()\<close> and
  \<open>this.reverse()[whileName](predicate).reverse()\<close>.
\<close>

definition lazy_dropRight :: "argument \<Rightarrow> wrapper \<Rightarrow> heap \<Rightarrow> (error + wrapper) \<times> heap" where
  "lazy_dropRight n this h =
     (case lazy_drop n (lazyReverse this) h of
        (Inl e, h') \<Rightarrow> (Inl e, h')
      | (Inr result, h') \<Rightarrow> (Inr (lazyReverse result), h'))"

definition lazy_takeRight :: "argument \<Rightarrow> wrapper \<Rightarrow> heap \<Rightarrow> (error + wrapper) \<times> heap" where
  "lazy_takeRight n this h =
     (case lazy_take n (lazyReverse this) h of
        (Inl e, h') \<Rightarrow> (Inl e, h')
      | (Inr result, h') \<Rightarrow> (Inr (lazyReverse result), h'))"

definition lazy_dropRightWhile :: "(jsval \<Rightarrow> jsval) \<Rightarrow> wrapper \<Rightarrow> heap \<Rightarrow> wrapper \<times> heap" where
  "lazy_dropRightWhile predicate this h =
     (let (result, h') = lazy_dropWhile predicate (lazyReverse this) h
      in (lazyReverse result, h'))"

definition lazy_takeRightWhile :: "(jsval \<Rightarrow> jsval) \<Rightarrow> wrapper \<Rightarrow> heap \<Rightarrow> wrapper \<times> heap" where
  "lazy_takeRightWhile predicate this h =
     (let (result, h') = lazy_takeWhile predicate (lazyReverse this) h
      in (lazyReverse result, h'))"


section \<open>The eager operations\<close>

text \<open>
  \<open>x >>> 0\<close>: the number without its fractional part, modulo 2^32; zero for NaN and
  the infinities.
\<close>

fun to_uint32 :: "jsnum \<Rightarrow> int" where
  "to_uint32 (Fin a) = a mod 4294967296"
| "to_uint32 (Frac q) = (if 0 \<le> q then \<lfloor>q\<rfloor> else \<lceil>q\<rceil>) mod 4294967296"
| "to_uint32 _ = 0"

text \<open>
  \<open>baseSlice\<close>. \<open>slice_positions\<close> is its arithmetic on the numbers that \<open>+start\<close>,
  \<open>end > length\<close> and \<open>+end\<close> read from the two arguments (\<open>end\<close> absent when
  \<open>typeof end == 'undefined'\<close>): the position of the first element and the length of the
  result. \<open>baseSlice\<close> converts the arguments, \<open>start\<close> first, and runs the copying loop.
\<close>

definition slice_positions :: "nat \<Rightarrow> jsnum \<Rightarrow> jsnum option \<Rightarrow> int \<times> int" where
  "slice_positions count start end =
     (let len = Fin (int count);
          start = or_zero start;
          start = (if num_lt start (Fin 0)
                   then (if num_gt (num_neg start) len then Fin 0 else num_add len start)
                   else start);
          end = (case end of
                   None \<Rightarrow> len
                 | Some e \<Rightarrow> (if num_gt e len then len else or_zero e));
          end = (if num_lt end (Fin 0) then num_add end len else end);
          n = (if num_gt start end then 0 else to_uint32 (num_sub end start))
      in (to_uint32 start, n))"

definition baseSlice :: "jsval list \<Rightarrow> argument \<Rightarrow> argument \<Rightarrow> error + jsval list" where
  "baseSlice array start end =
     (case (if is_null start then Inr (Fin 0) else to_number start) of
        Inl e \<Rightarrow> Inl e
      | Inr s \<Rightarrow>
          (case (if end = Undefined_arg then Inr None else map_sum id Some (to_number end)) of
             Inl e \<Rightarrow> Inl e
           | Inr e \<Rightarrow>
               (let (start, n) = slice_positions (length array) s e
                in Inr (map (\<lambda>index. array_get array (Fin (int index + start))) [0..<nat n]))))"


definition array_take :: "jsval list \<Rightarrow> argument \<Rightarrow> error + jsval list" where
  "array_take array n =
     (if length array = 0 then Inr []
      else (let n = (if is_null n then Num (Fin 1) else n)
            in case to_number n of
                 Inl e \<Rightarrow> Inl e
               | Inr x \<Rightarrow> baseSlice array (Num (Fin 0))
                            (if num_lt x (Fin 0) then Num (Fin 0) else n)))"

text \<open>
  \<open>arrayMap\<close> and \<open>arrayFilter\<close>, with an iteratee that reads its first argument only
  (the wrapper uses the lazy methods for no other).
\<close>

primrec arrayMap :: "jsval list \<Rightarrow> (jsval \<Rightarrow> jsval) \<Rightarrow> jsval list" where
  "arrayMap [] iteratee = []"
| "arrayMap (v # vs) iteratee = iteratee v # arrayMap vs iteratee"

primrec arrayFilter :: "jsval list \<Rightarrow> (jsval \<Rightarrow> jsval) \<Rightarrow> jsval list" where
  "arrayFilter [] predicate = []"
| "arrayFilter (v # vs) predicate =
     (if truthy (predicate v) then v # arrayFilter vs predicate else arrayFilter vs predicate)"

text \<open>
  The two scanning loops of \<open>baseWhile\<close> return the final \<open>index\<close>:
  \<open>while (++index < length && predicate(array[index])) {}\<close> from the left, and
  \<open>while (index-- && predicate(array[index])) {}\<close> from the right, where the counter is
  a natural number until the last decrement.
\<close>

function baseWhile_left :: "jsval list \<Rightarrow> (jsval \<Rightarrow> jsval) \<Rightarrow> int \<Rightarrow> int" where
  "baseWhile_left array predicate index =
     (if index + 1 < int (length array) \<and>
         truthy (predicate (array_get array (Fin (index + 1))))
      then baseWhile_left array predicate (index + 1)
      else index + 1)"
  by pat_completeness auto
termination
  by (relation "measure (\<lambda>(array, predicate, index). nat (int (length array) - index))") auto

fun baseWhile_right :: "jsval list \<Rightarrow> (jsval \<Rightarrow> jsval) \<Rightarrow> nat \<Rightarrow> int" where
  "baseWhile_right array predicate 0 = - 1"
| "baseWhile_right array predicate (Suc index) =
     (if truthy (predicate (array_get array (Fin (int index))))
      then baseWhile_right array predicate index
      else int index)"

definition baseWhile ::
  "jsval list \<Rightarrow> (jsval \<Rightarrow> jsval) \<Rightarrow> bool \<Rightarrow> bool \<Rightarrow> error + jsval list" where
  "baseWhile array predicate isDrop fromRight =
     (let len = int (length array);
          index = (if fromRight then baseWhile_right array predicate (length array)
                   else baseWhile_left array predicate (- 1))
      in if isDrop
         then baseSlice array (Num (Fin (if fromRight then 0 else index)))
                (Num (Fin (if fromRight then index + 1 else len)))
         else baseSlice array (Num (Fin (if fromRight then index + 1 else 0)))
                (Num (Fin (if fromRight then len else index))))"

definition array_dropWhile :: "jsval list \<Rightarrow> (jsval \<Rightarrow> jsval) \<Rightarrow> error + jsval list" where
  "array_dropWhile array predicate =
     (if length array \<noteq> 0 then baseWhile array predicate True False else Inr [])"

definition array_dropRightWhile :: "jsval list \<Rightarrow> (jsval \<Rightarrow> jsval) \<Rightarrow> error + jsval list" where
  "array_dropRightWhile array predicate =
     (if length array \<noteq> 0 then baseWhile array predicate True True else Inr [])"

definition array_takeWhile :: "jsval list \<Rightarrow> (jsval \<Rightarrow> jsval) \<Rightarrow> error + jsval list" where
  "array_takeWhile array predicate =
     (if length array \<noteq> 0 then baseWhile array predicate False False else Inr [])"

definition array_takeRightWhile :: "jsval list \<Rightarrow> (jsval \<Rightarrow> jsval) \<Rightarrow> error + jsval list" where
  "array_takeRightWhile array predicate =
     (if length array \<noteq> 0 then baseWhile array predicate False True else Inr [])"

section \<open>Chains\<close>

text \<open>
  \<open>lodash(value)\<close> on a plain value is \<open>new LodashWrapper(value)\<close>. A chain method that
  supports fusion, called on a \<open>LodashWrapper\<close> around an array, calls the lazy method
  on \<open>new LazyWrapper(this)\<close>; called on a \<open>LodashWrapper\<close> around a lazy wrapper with
  no pending actions, it calls the lazy method on that lazy wrapper. So a chain over an
  array is the sequence of lazy methods below on \<open>lazy_source\<close>, and its \<open>value()\<close> is
  \<open>wrapper_value\<close> of the last wrapper.
\<close>

definition lodash :: "jsval \<Rightarrow> wrapper" where
  "lodash v = LodashWrapper (Plain v) [] False"

definition lazy_source :: "jsval list \<Rightarrow> wrapper" where
  "lazy_source array = new_LazyWrapper (lodash (Array array))"

text \<open>The store before any entry has been created.\<close>

definition empty_heap :: heap where
  "empty_heap =
     \<lparr>cells = (\<lambda>_. \<lparr>data_done = False, data_count = 0, data_index = Fin 0,
                      data_iteratee = identity, data_limit = Fin (- 1),
                      data_type = LAZY_MAP_FLAG\<rparr>),
      next_ref = 0\<rparr>"

text \<open>The array of numbers \<open>ns\<close>, and the iteratees of the examples.\<close>

definition numbers :: "int list \<Rightarrow> jsval list" where
  "numbers ns = map (\<lambda>i. Number (Fin i)) ns"

fun is_even :: "jsval \<Rightarrow> jsval" where
  "is_even (Number (Fin i)) = Boolean (i mod 2 = 0)"
| "is_even _ = Boolean False"

fun times_ten :: "jsval \<Rightarrow> jsval" where
  "times_ten (Number (Fin i)) = Number (Fin (i * 10))"
| "times_ten _ = Number NaN"

fun less_than_three :: "jsval \<Rightarrow> jsval" where
  "less_than_three (Number (Fin i)) = Boolean (i < 3)"
| "less_than_three _ = Boolean False"

fun more_than_one :: "jsval \<Rightarrow> jsval" where
  "more_than_one (Number (Fin i)) = Boolean (1 < i)"
| "more_than_one _ = Boolean False"

definition always :: "jsval \<Rightarrow> jsval" where
  "always v = Boolean True"

text \<open>The result of a \<open>value()\<close>, without the store.\<close>

definition result_of :: "((error + jsval) \<times> heap) option \<Rightarrow> (error + jsval) option" where
  "result_of res = map_option fst res"

text \<open>
  A chain ends with a wrapper, or with the error that one of its methods has thrown;
  \<open>chain_value\<close> is the \<open>value()\<close> of the wrapper, or that error.
\<close>

definition chain_value :: "(error + wrapper) \<times> heap \<Rightarrow> ((error + jsval) \<times> heap) option" where
  "chain_value c =
     (case c of
        (Inl e, h) \<Rightarrow> Some (Inl e, h)
      | (Inr w, h) \<Rightarrow> wrapper_value w h)"

text \<open>A chain continued with one more method, unless it has thrown.\<close>

definition chain_then ::
  "(error + wrapper) \<times> heap \<Rightarrow> (wrapper \<Rightarrow> heap \<Rightarrow> (error + wrapper) \<times> heap) \<Rightarrow>
     (error + wrapper) \<times> heap" where
  "chain_then c method =
     (case c of
        (Inl e, h) \<Rightarrow> (Inl e, h)
      | (Inr w, h) \<Rightarrow> method w h)"

text \<open>\<open>.filter(always).take(2).filter(more_than_one)\<close> on an array.\<close>

definition chain_filter_take_filter :: "jsval list \<Rightarrow> (error + wrapper) \<times> heap" where
  "chain_filter_take_filter array =
     (let (w1, h1) = lazy_filter always (lazy_source array) empty_heap
      in case lazy_take (Num (Fin 2)) w1 h1 of
           (Inl e, h2) \<Rightarrow> (Inl e, h2)
         | (Inr w2, h2) \<Rightarrow> (let (w3, h3) = lazy_filter more_than_one w2 h2 in (Inr w3, h3)))"

text \<open>\<open>.filter(is_even).map(times_ten).take(2)\<close> on an array.\<close>

definition chain_filter_map_take :: "jsval list \<Rightarrow> (error + wrapper) \<times> heap" where
  "chain_filter_map_take array =
     (let (w1, h1) = lazy_filter is_even (lazy_source array) empty_heap;
          (w2, h2) = lazy_map times_ten w1 h1
      in lazy_take (Num (Fin 2)) w2 h2)"

text \<open>\<open>.filter(always).drop(1)\<close> on an array.\<close>

definition chain_filter_drop :: "jsval list \<Rightarrow> (error + wrapper) \<times> heap" where
  "chain_filter_drop array =
     (let (w1, h1) = lazy_filter always (lazy_source array) empty_heap
      in lazy_drop (Num (Fin 1)) w1 h1)"

text \<open>Two calls of \<open>value()\<close> on the same wrapper, one after the other.\<close>

definition value_twice :: "wrapper \<Rightarrow> heap \<Rightarrow> ((error + jsval) \<times> (error + jsval)) option" where
  "value_twice w h =
     (case wrapper_value w h of
        None \<Rightarrow> None
      | Some (r1, h1) \<Rightarrow>
          (case wrapper_value w h1 of None \<Rightarrow> None | Some (r2, h2) \<Rightarrow> Some (r1, r2)))"


text \<open>
  \<open>w1 = .filter(always).drop(1)\<close> and its clone \<open>w2 = w1.map(times_ten)\<close>, which shares
  the entry of the \<open>drop\<close>.
\<close>

definition chain_clone_of_drop :: "jsval list \<Rightarrow> (error + wrapper \<times> wrapper) \<times> heap" where
  "chain_clone_of_drop array =
     (case chain_filter_drop array of
        (Inl e, h1) \<Rightarrow> (Inl e, h1)
      | (Inr w1, h1) \<Rightarrow> (let (w2, h2) = lazy_map times_ten w1 h1 in (Inr (w1, w2), h2)))"

text \<open>\<open>.filter(is_even)\<close> on \<open>[1, 2, 3, 4]\<close>: a filtered wrapper and its store.\<close>

definition filtered_example :: "wrapper \<times> heap" where
  "filtered_example = lazy_filter is_even (lazy_source (numbers [1, 2, 3, 4])) empty_heap"

text \<open>
  \<open>.filter(more_than_one).takeWhile(less_than_three)\<close> on \<open>[1, 2, 3, 4, 2]\<close>.
\<close>

definition while_example :: "wrapper \<times> heap" where
  "while_example =
     (let (w1, h1) = lazy_filter more_than_one (lazy_source (numbers [1, 2, 3, 4, 2])) empty_heap
      in lazy_takeWhile less_than_three w1 h1)"

text \<open>\<open>.dropWhile(less_than_three)\<close> on \<open>[1, 2, 3, 4]\<close>.\<close>

definition dropWhile_example :: "wrapper \<times> heap" where
  "dropWhile_example = lazy_dropWhile less_than_three (lazy_source (numbers [1, 2, 3, 4])) empty_heap"

text \<open>A store whose entry 0 is a drop-while entry left done at index 3 by an earlier pass.\<close>

definition stale_done_heap :: heap where
  "stale_done_heap =
     heap_set empty_heap 0
       \<lparr>data_done = True, data_count = 2, data_index = Fin 3, data_iteratee = less_than_three,
        data_limit = Fin (- 1), data_type = LAZY_DROP_WHILE_FLAG\<rparr>"

text \<open>
  Names for what \<open>lazyValue\<close> computes before its loop: the window \<open>(start, end)\<close> of the
  views over an array, and the list of entries.
\<close>

definition view_of :: "wrapper \<Rightarrow> jsval list \<Rightarrow> jsnum \<times> jsnum" where
  "view_of this array =
     getView (Fin 0) (Fin (int (length array))) (case views this of None \<Rightarrow> [] | Some ts \<Rightarrow> ts)"

definition iteratees_of :: "wrapper \<Rightarrow> nat list" where
  "iteratees_of this = (case iteratees this of None \<Rightarrow> [] | Some is \<Rightarrow> is)"


text \<open>A size that \<open>size_of\<close> can return: an integer or \<open>Infinity\<close>.\<close>

definition valid_size :: "jsnum \<Rightarrow> bool" where
  "valid_size z \<longleftrightarrow> z = PosInf \<or> (\<exists>c. z = Fin c)"

text \<open>\<open>.map(times_ten).drop(1)\<close> on \<open>[1, 2, 3, 4]\<close>: an unfiltered wrapper with a view.\<close>

definition mapped_example :: "(error + wrapper) \<times> heap" where
  "mapped_example =
     (let (w1, h1) = lazy_map times_ten (lazy_source (numbers [1, 2, 3, 4])) empty_heap
      in lazy_drop (Num (Fin 1)) w1 h1)"

text \<open>
  What the chain methods maintain of a lazy wrapper and the store: the sizes of its views
  are valid, it is filtered or its entries are map entries, and its entries have been
  created.
\<close>

definition buildable :: "wrapper \<Rightarrow> heap \<Rightarrow> bool" where
  "buildable this h \<longleftrightarrow>
     (\<forall>t\<in>set (case views this of None \<Rightarrow> [] | Some ts \<Rightarrow> ts). valid_size (view_size t)) \<and>
     (filtered this \<or>
      (\<forall>r\<in>set (case iteratees this of None \<Rightarrow> [] | Some is \<Rightarrow> is).
         data_type (cells h r) = LAZY_MAP_FLAG)) \<and>
     (\<forall>r\<in>set (case iteratees this of None \<Rightarrow> [] | Some is \<Rightarrow> is). r < next_ref h)"

section \<open>Properties of the lazy engine\<close>

subsection \<open>Fusion against the eager operations\<close>

lemma fusion_example:
  "result_of (chain_value (chain_filter_map_take (numbers [1, 2, 3, 4, 5, 6])))
     = Some (Inr (Array (numbers [20, 40])))
   \<and> array_take (arrayMap (arrayFilter (numbers [1, 2, 3, 4, 5, 6]) is_even) times_ten)
       (Num (Fin 2)) = Inr (numbers [20, 40])"
  by code_simp

text \<open>
  Claim C1 (fusion equivalence): the lazily evaluated result of a chain equals the
  result of the eager operations applied one at a time. The example of the claim holds
  (\<open>fusion_example\<close>), the general statement does not: on \<open>[1, 2, 3, 4]\<close> the chain
  \<open>.filter(always).take(2).filter(more_than_one)\<close> evaluates to \<open>[2, 3]\<close>, while the
  eager operations give \<open>[2]\<close>. A \<open>take\<close> on a filtered wrapper only lowers
  \<open>__takeCount__\<close>, which bounds the final output, so a filter queued after it still
  sees every element.
\<close>

theorem fusion_take_then_filter:
  "result_of (chain_value (chain_filter_take_filter (numbers [1, 2, 3, 4])))
     = Some (Inr (Array (numbers [2, 3])))
   \<and> array_take (arrayFilter (numbers [1, 2, 3, 4]) always) (Num (Fin 2))
     = Inr (numbers [1, 2])
   \<and> arrayFilter (numbers [1, 2]) more_than_one = numbers [2]"
  by code_simp

subsection \<open>Evaluating twice\<close>

text \<open>
  Claim C2 (idempotent evaluation): two calls of \<open>value()\<close> on the same wrapper return
  equal results. On \<open>[1]\<close> the chain \<open>.filter(always).drop(1)\<close> returns \<open>[]\<close> the first
  time and \<open>[1]\<close> the second: the first run leaves \<open>count = 1\<close> and \<open>done = false\<close> in
  the entry of the \<open>drop\<close>, and the reset at the head of the drop-while branch only
  fires when \<open>done\<close> is set.
\<close>

theorem value_twice_stale_count:
  "(case chain_filter_drop (numbers [1]) of
      (Inl e, h) \<Rightarrow> Some (Inl e, Inl e)
    | (Inr w, h) \<Rightarrow> value_twice w h)
     = Some (Inr (Array []), Inr (Array (numbers [1])))"
  by code_simp

subsection \<open>Entries shared between clones\<close>

text \<open>
  A chain method creates at most one entry, at the next free address of the store, and
  touches no entry created before it: the entries of the receiver, which the new wrapper
  shares, are as they were.
\<close>

lemma iteratee_method_frame:
  assumes "r < next_ref h"
  shows "cells (snd (lazy_iteratee_method ty it this h)) r = cells h r"
  using assms
  by (simp add: lazy_iteratee_method_def heap_new_def Let_def split: prod.splits)

lemma drop_take_frame:
  assumes "r < next_ref h"
  shows "cells (snd (lazy_drop_take isTake n this h)) r = cells h r"
  using assms
  by (auto simp: lazy_drop_take_def lazy_dropWhile_def lazy_iteratee_method_def heap_new_def
        heap_set_def new_LazyWrapper_def set_iteratees_def set_filtered_def Let_def
        split: prod.splits option.splits sum.splits)

text \<open>
  Claim C6 (pipeline immutability): chain calls return new pipelines and leave the
  receiver's queue description alone; the progress counters in the entries are scratch
  state, reset at the start of each evaluation. The counters are not reset: with
  \<open>w1 = .filter(always).drop(1)\<close> on \<open>[1]\<close> and its clone \<open>w2 = w1.map(times_ten)\<close>,
  \<open>w2.value()\<close> is \<open>[]\<close> when it is evaluated first and \<open>[10]\<close> when \<open>w1.value()\<close> has
  run before it.
\<close>

theorem clone_sees_stale_count:
  "(case chain_clone_of_drop (numbers [1]) of
      (Inl e, h) \<Rightarrow> (Some (Inl e), Some (Inl e))
    | (Inr (w1, w2), h) \<Rightarrow>
        (result_of (wrapper_value w2 h),
         (case wrapper_value w1 h of
            None \<Rightarrow> None
          | Some (r1, h1) \<Rightarrow> result_of (wrapper_value w2 h1))))
     = (Some (Inr (Array [])), Some (Inr (Array (numbers [10]))))"
  by code_simp

subsection \<open>Basic facts\<close>

lemma arrayCopy_id [simp]: "arrayCopy xs = xs"
  by (induction xs) simp_all

lemma map_option_arrayCopy [simp]: "map_option arrayCopy x = x"
  by (cases x) simp_all

lemma lazyClone_LazyWrapper [simp]:
  "lazyClone (LazyWrapper w acts d f its tc vs) = LazyWrapper w acts d f its tc vs"
  by (simp add: lazyClone_def new_LazyWrapper_def set_actions_def set_dir_def set_filtered_def
      set_iteratees_def set_takeCount_def set_views_def)

lemma lazyReverse_filtered:
  "lazyReverse (LazyWrapper w acts d True its tc vs) =
     LazyWrapper (LazyWrapper w acts d True its tc vs) None (- 1) True None PosInf None"
  by (simp add: lazyReverse_def new_LazyWrapper_def set_dir_def set_filtered_def)

lemma lazyReverse_unfiltered:
  "lazyReverse (LazyWrapper w acts d False its tc vs) = LazyWrapper w acts (- d) False its tc vs"
  by (simp add: lazyReverse_def set_dir_def)

lemma result_ofD: "result_of X = Some a \<Longrightarrow> \<exists>h'. X = Some (a, h')"
  by (cases X) (auto simp: result_of_def)

lemma filtered_example_eq:
  "filtered_example =
     (LazyWrapper (lodash (Array (numbers [1, 2, 3, 4]))) None 1 True (Some [0]) PosInf None,
      snd filtered_example)"
  by (simp add: filtered_example_def lazy_filter_def lazy_iteratee_method_def lazy_source_def
      new_LazyWrapper_def heap_new_def set_iteratees_def set_filtered_def empty_heap_def)

subsection \<open>Reversal\<close>

text \<open>
  A wrapper with no entries, no views and direction \<open>-1\<close> walks the array of its source
  from the last index down and emits every element.
\<close>

lemma reverse_loop:
  "k \<le> length array \<Longrightarrow> length acc + k = length array \<Longrightarrow>
   lazy_loop array (- 1) True (Fin (int (length array))) [] (Fin (int k)) (Fin (int k)) acc h
     = Some (acc @ rev (take k array), h)"
proof (induction k arbitrary: acc)
  case 0
  then show ?case by (subst lazy_loop.simps) simp
next
  case (Suc k)
  have "lazy_loop array (- 1) True (Fin (int (length array))) [] (Fin (int (Suc k)))
          (Fin (int (Suc k))) acc h
        = lazy_loop array (- 1) True (Fin (int (length array))) [] (Fin (int k)) (Fin (int k))
            (acc @ [array ! k]) h"
    using Suc.prems by (subst lazy_loop.simps) simp
  also have "\<dots> = Some ((acc @ [array ! k]) @ rev (take k array), h)"
    using Suc.prems by (intro Suc.IH) simp_all
  also have "(acc @ [array ! k]) @ rev (take k array) = acc @ rev (take (Suc k) array)"
    using Suc.prems by (simp add: take_Suc_conv_app_nth)
  finally show ?case .
qed

lemma lazyValue_reversing:
  "lazyValue (LazyWrapper w None (- 1) True None PosInf None) (Array xs) h
     = Some (Inr (Array (rev xs)), h)"
  using reverse_loop [of "length xs" xs "[]" h]
  by (simp add: lazyValue_def)

text \<open>
  Claim C5 (reversal involution): \<open>.reverse().reverse().value()\<close> equals \<open>.value()\<close>.
  It holds for every lazy wrapper whose \<open>value()\<close> returns an array, from any state of
  the store, with or without while-entries: an unfiltered wrapper is cloned with its
  direction negated twice, a filtered one is wrapped twice in a wrapper that reverses
  the array its source returns. The store after the evaluation is the same as well.
\<close>

theorem reverse_reverse_value:
  assumes "wrapper_value (LazyWrapper w acts d f its tc vs) h = Some (Inr (Array xs), h')"
  shows "wrapper_value (lazyReverse (lazyReverse (LazyWrapper w acts d f its tc vs))) h
           = Some (Inr (Array xs), h')"
proof (cases f)
  case True
  let ?P = "LazyWrapper w acts d True its tc vs"
  have "wrapper_value (LazyWrapper ?P None (- 1) True None PosInf None) h
          = Some (Inr (Array (rev xs)), h')"
    using assms True
    by (simp add: lazyValue_reversing del: wrapper_value.simps(3)
          add: wrapper_value.simps(3) [of ?P])
  then show ?thesis
    using True by (simp add: lazyReverse_filtered lazyValue_reversing)
next
  case False
  then show ?thesis using assms by (simp add: lazyReverse_unfiltered)
qed

theorem reverse_reverse_value_witness:
  "result_of (wrapper_value (fst filtered_example) (snd filtered_example))
     = Some (Inr (Array (numbers [2, 4])))
   \<and> result_of (wrapper_value (lazyReverse (lazyReverse (fst filtered_example)))
        (snd filtered_example))
     = Some (Inr (Array (numbers [2, 4])))"
proof -
  have v: "result_of (wrapper_value (fst filtered_example) (snd filtered_example))
             = Some (Inr (Array (numbers [2, 4])))"
    by code_simp
  then obtain h' where
    "wrapper_value (fst filtered_example) (snd filtered_example)
       = Some (Inr (Array (numbers [2, 4])), h')"
    using result_ofD by blast
  then have "wrapper_value
      (LazyWrapper (lodash (Array (numbers [1, 2, 3, 4]))) None 1 True (Some [0]) PosInf None)
      (snd filtered_example) = Some (Inr (Array (numbers [2, 4])), h')"
    by (subst (asm) filtered_example_eq) simp
  from reverse_reverse_value [OF this]
  have "result_of (wrapper_value (lazyReverse (lazyReverse (fst filtered_example)))
        (snd filtered_example)) = Some (Inr (Array (numbers [2, 4])))"
    by (subst filtered_example_eq) (simp add: result_of_def)
  with v show ?thesis by simp
qed

subsection \<open>A source that is not an array\<close>



subsection \<open>The inner loop\<close>

lemma run_iteratees_append:
  "run_iteratees isRight idx (pre @ rest) v h =
     (case run_iteratees isRight idx pre v h of
        (Emit v', h') \<Rightarrow> run_iteratees isRight idx rest v' h'
      | (ContinueOuter, h') \<Rightarrow> (ContinueOuter, h')
      | (BreakOuter, h') \<Rightarrow> (BreakOuter, h'))"
  by (induction pre arbitrary: v h) (auto split: prod.splits outcome.splits)

lemma run_entry_takeWhile_fails:
  "data_type (cells h r) = LAZY_TAKE_WHILE \<Longrightarrow> \<not> truthy (data_iteratee (cells h r) v) \<Longrightarrow>
   run_entry isRight idx r v h = (BreakOuter, h)"
  by (simp add: run_entry_def)

lemma while_example_heap:
  "cells (snd while_example) 0 =
     \<lparr>data_done = False, data_count = 0, data_index = Fin 0, data_iteratee = more_than_one,
      data_limit = Fin (- 1), data_type = LAZY_FILTER_FLAG\<rparr>"
  "cells (snd while_example) (Suc 0) =
     \<lparr>data_done = False, data_count = 0, data_index = Fin 0, data_iteratee = less_than_three,
      data_limit = Fin (- 1), data_type = LAZY_TAKE_WHILE\<rparr>"
  by (simp_all add: while_example_def lazy_filter_def lazy_takeWhile_def lazy_iteratee_method_def
      lazy_source_def new_LazyWrapper_def heap_new_def set_iteratees_def set_filtered_def
      empty_heap_def)

text \<open>
  Claim C7 (takeWhile termination): once a takeWhile predicate returns a falsy value for
  an element, the evaluation ends at once and nothing at a later position is emitted.
  Here the loop still runs (\<open>len\<close> is truthy, the take count is not reached), the next
  element passes the entries \<open>pre\<close> and reaches the takeWhile entry \<open>r\<close> as the value
  \<open>v\<close>, on which the predicate fails. Then the loop returns the result accumulated so
  far and the store as it is at that point: the entries \<open>post\<close> are not run, and
  neither the remaining length nor the rest of the array matters.
\<close>

theorem takeWhile_ends_evaluation:
  assumes "num_truthy len" and "num_lt (Fin (int (length result))) tc"
    and "run_iteratees isRight (num_add index (Fin d)) pre
           (array_get array (num_add index (Fin d))) h = (Emit v, h1)"
    and "data_type (cells h1 r) = LAZY_TAKE_WHILE"
    and "\<not> truthy (data_iteratee (cells h1 r) v)"
  shows "lazy_loop array d isRight tc (pre @ r # post) len index result h = Some (result, h1)"
proof -
  have "run_iteratees isRight (num_add index (Fin d)) (pre @ r # post)
           (array_get array (num_add index (Fin d))) h = (BreakOuter, h1)"
    using assms(3-5) by (simp add: run_iteratees_append run_entry_takeWhile_fails)
  then show ?thesis
    using assms(1,2) by (subst lazy_loop.simps) simp
qed

theorem takeWhile_ends_evaluation_witness:
  "num_truthy (Fin 3)
   \<and> num_lt (Fin (int (length (numbers [2])))) (Fin 5)
   \<and> run_iteratees False (num_add (Fin 1) (Fin 1)) [0]
        (array_get (numbers [1, 2, 3, 4, 2]) (num_add (Fin 1) (Fin 1))) (snd while_example)
      = (Emit (Number (Fin 3)), snd while_example)
   \<and> data_type (cells (snd while_example) 1) = LAZY_TAKE_WHILE
   \<and> \<not> truthy (data_iteratee (cells (snd while_example) 1) (Number (Fin 3)))
   \<and> lazy_loop (numbers [1, 2, 3, 4, 2]) 1 False (Fin 5) ([0] @ 1 # []) (Fin 3) (Fin 1)
        (numbers [2]) (snd while_example)
      = Some (numbers [2], snd while_example)
   \<and> result_of (wrapper_value (fst while_example) (snd while_example))
      = Some (Inr (Array (numbers [2])))"
proof -
  have a: "num_truthy (Fin 3)" by simp
  have b: "num_lt (Fin (int (length (numbers [2])))) (Fin 5)" by (simp add: numbers_def)
  have c: "run_iteratees False (num_add (Fin 1) (Fin 1)) [0]
        (array_get (numbers [1, 2, 3, 4, 2]) (num_add (Fin 1) (Fin 1))) (snd while_example)
      = (Emit (Number (Fin 3)), snd while_example)"
    by (simp add: numbers_def run_entry_def while_example_heap)
  have d: "data_type (cells (snd while_example) 1) = LAZY_TAKE_WHILE"
    by (simp add: while_example_heap)
  have e: "\<not> truthy (data_iteratee (cells (snd while_example) 1) (Number (Fin 3)))"
    by (simp add: while_example_heap)
  have f: "result_of (wrapper_value (fst while_example) (snd while_example))
      = Some (Inr (Array (numbers [2])))"
    by code_simp
  from takeWhile_ends_evaluation [OF a b c d e, of "[]"] a b c d e f show ?thesis
    by simp
qed

subsection \<open>The matcher\<close>

lemma strict_equals_sym: "strict_equals a b = strict_equals b a"
  by (cases a; cases b) (auto elim: num_eq.elims)

lemma strict_equals_Undefined: "strict_equals a b \<Longrightarrow> (a = Undefined) = (b = Undefined)"
  by (cases a; cases b) auto

text \<open>
  Claim C8 (matcher fast-path equivalence): for a pattern with a single key whose value
  is strictly comparable, \<open>baseMatches\<close> returns the special-cased predicate, and that
  predicate gives on every element the boolean that the general closure over
  \<open>baseIsMatch\<close> (the rest of \<open>baseMatches\<close>) gives, whatever \<open>baseIsEqual\<close> computes.
\<close>

theorem matcher_fast_path:
  assumes "isStrictComparable v"
  shows "baseMatches baseIsEqual [(key, v)] = baseMatches_single key v
         \<and> baseMatches_single key v object = baseMatches_general baseIsEqual [(key, v)] object"
proof -
  have "strict_equals v (get_prop object key) \<Longrightarrow>
        (get_prop object key \<noteq> Undefined) = (v \<noteq> Undefined)"
    using strict_equals_Undefined by blast
  then show ?thesis using assms
    by (auto simp: baseMatches_def baseMatches_general_def baseMatches_single_def baseIsMatch_def
        strict_equals_sym [of v] toObject_def)
qed

theorem matcher_fast_path_witness:
  "isStrictComparable (Number (Fin 1))
   \<and> baseMatches (\<lambda>a b. False) [(''a'', Number (Fin 1))] = baseMatches_single ''a'' (Number (Fin 1))
   \<and> baseMatches_single ''a'' (Number (Fin 1)) (Object [(''a'', Number (Fin 1)), (''b'', Number (Fin 2))])
   \<and> baseMatches_general (\<lambda>a b. False) [(''a'', Number (Fin 1))]
       (Object [(''a'', Number (Fin 1)), (''b'', Number (Fin 2))])
   \<and> \<not> baseMatches_general (\<lambda>a b. False) [(''a'', Number (Fin 1))]
       (Object [(''a'', Number (Fin 2)), (''b'', Number (Fin 1))])"
proof -
  have a: "isStrictComparable (Number (Fin 1))" by (simp add: isStrictComparable_def)
  have b: "baseMatches_single ''a'' (Number (Fin 1))
             (Object [(''a'', Number (Fin 1)), (''b'', Number (Fin 2))])"
    by (simp add: baseMatches_single_def)
  have c: "\<not> baseMatches_single ''a'' (Number (Fin 1))
             (Object [(''a'', Number (Fin 2)), (''b'', Number (Fin 1))])"
    by (simp add: baseMatches_single_def)
  from matcher_fast_path [OF a, of "\<lambda>a b. False" "''a''"] a b c show ?thesis
    by simp
qed

subsection \<open>Slices\<close>

text \<open>
  \<open>baseSlice\<close> on integer positions, for an array of fewer than 2^32 elements (the
  language has no longer array): a prefix, a suffix.
\<close>

lemma map_array_get_prefix:
  "n \<le> length array \<Longrightarrow> map (\<lambda>index. array_get array (Fin (int index))) [0..<n] = take n array"
  by (intro nth_equalityI) simp_all

lemma baseSlice_prefix:
  assumes "0 \<le> e" and "e \<le> int (length array)" and "length array < 4294967296"
  shows "baseSlice array (Num (Fin 0)) (Num (Fin e)) = Inr (take (nat e) array)"
proof -
  have m: "e mod 4294967296 = e"
    using assms by simp
  have "baseSlice array (Num (Fin 0)) (Num (Fin e))
          = Inr (map (\<lambda>index. array_get array (Fin (int index))) [0..<nat e])"
    using assms(1,2)
    by (simp add: baseSlice_def slice_positions_def or_zero_def num_gt_def Let_def m)
  also have "map (\<lambda>index. array_get array (Fin (int index))) [0..<nat e] = take (nat e) array"
    using assms(1,2) by (intro map_array_get_prefix) simp
  finally show ?thesis .
qed

lemma map_array_get_suffix:
  "s \<le> length array \<Longrightarrow>
   map (\<lambda>index. array_get array (Fin (int index + int s))) [0..<length array - s] = drop s array"
  by (intro nth_equalityI) (auto simp: nat_add_distrib add.commute)

lemma baseSlice_suffix:
  assumes "0 \<le> s" and "s \<le> int (length array)" and "length array < 4294967296"
  shows "baseSlice array (Num (Fin s)) (Num (Fin (int (length array)))) = Inr (drop (nat s) array)"
proof -
  have m: "s mod 4294967296 = s" "(int (length array) - s) mod 4294967296 = int (length array) - s"
    "int (length array) mod 4294967296 = int (length array)"
    using assms by simp_all
  have "baseSlice array (Num (Fin s)) (Num (Fin (int (length array))))
          = Inr (map (\<lambda>index. array_get array (Fin (int index + int (nat s))))
                  [0..<length array - nat s])"
    using assms(1,2)
    by (auto simp: baseSlice_def slice_positions_def or_zero_def num_gt_def Let_def m
          nat_diff_distrib')
  also have "map (\<lambda>index. array_get array (Fin (int index + int (nat s))))
                  [0..<length array - nat s] = drop (nat s) array"
    using assms(1,2) by (intro map_array_get_suffix) simp
  finally show ?thesis .
qed




subsection \<open>Size arguments of drop and take\<close>

lemma size_of_null: "is_null n \<Longrightarrow> size_of n = Inr (Fin 1)"
  by (simp add: size_of_def)

lemma size_of_throws: "\<not> is_null n \<Longrightarrow> to_number n = Inl e \<Longrightarrow> size_of n = Inl e"
  by (simp add: size_of_def)

lemma size_of_number:
  "\<not> is_null n \<Longrightarrow> to_number n = Inr x \<Longrightarrow> size_of n =
     Inr (case x of
            Fin k \<Rightarrow> Fin (max k 0) | PosInf \<Rightarrow> PosInf | Frac q \<Rightarrow> Fin (max \<lfloor>q\<rfloor> 0)
          | _ \<Rightarrow> Fin 0)"
  by (cases x) (simp_all add: size_of_def or_zero_def)

lemma size_of_cases:
  assumes "size_of n = Inr s"
  obtains k where "s = Fin k" and "0 \<le> k" | "s = PosInf"
proof (cases "is_null n")
  case True
  with assms have "s = Fin 1" by (simp add: size_of_null)
  then show ?thesis using that(1) by simp
next
  case False
  show ?thesis
  proof (cases "to_number n")
    case (Inl e)
    with assms False show ?thesis by (simp add: size_of_throws)
  next
    case (Inr x)
    with assms False show ?thesis
      using that by (cases x) (auto simp: size_of_number)
  qed
qed


lemma size_of_valid: "size_of n = Inr s \<Longrightarrow> valid_size s"
  by (erule size_of_cases) (simp_all add: valid_size_def)




















subsection \<open>Reversal and the while-entries\<close>

lemma heap_set_cells [simp]: "cells (heap_set h r d) = (cells h)(r := d)"
  by (simp add: heap_set_def)

lemma heap_set_twice [simp]: "heap_set (heap_set h r d) r d' = heap_set h r d'"
  by (simp add: heap_set_def)

text \<open>A right-to-left pass over a takeWhile entry.\<close>

lemma takeWhile_loop_right:
  assumes "data_type (cells h r) = LAZY_TAKE_WHILE"
  shows "k \<le> length array \<Longrightarrow> length acc + k \<le> length array \<Longrightarrow>
   lazy_loop array (- 1) True (Fin (int (length array))) [r] (Fin (int k)) (Fin (int k)) acc h
     = Some (acc @ takeWhile (\<lambda>v. truthy (data_iteratee (cells h r) v)) (rev (take k array)), h)"
proof (induction k arbitrary: acc)
  case 0
  then show ?case by (subst lazy_loop.simps) simp
next
  case (Suc k)
  show ?case
  proof (cases "truthy (data_iteratee (cells h r) (array ! k))")
    case True
    have "lazy_loop array (- 1) True (Fin (int (length array))) [r] (Fin (int (Suc k)))
            (Fin (int (Suc k))) acc h
          = lazy_loop array (- 1) True (Fin (int (length array))) [r] (Fin (int k)) (Fin (int k))
              (acc @ [array ! k]) h"
      using Suc.prems True assms by (subst lazy_loop.simps) (simp add: run_entry_def)
    also have "\<dots> = Some ((acc @ [array ! k]) @
        takeWhile (\<lambda>v. truthy (data_iteratee (cells h r) v)) (rev (take k array)), h)"
      using Suc.prems by (intro Suc.IH) simp_all
    finally show ?thesis
      using Suc.prems True by (simp add: take_Suc_conv_app_nth)
  next
    case False
    then show ?thesis
      using Suc.prems assms
      by (subst lazy_loop.simps) (simp add: run_entry_def take_Suc_conv_app_nth)
  qed
qed

text \<open>A right-to-left pass over a dropWhile entry that is done.\<close>

lemma dropWhile_done_loop_right:
  "k \<le> length array \<Longrightarrow> length acc + k \<le> length array \<Longrightarrow>
   data_type (cells h r) = LAZY_DROP_WHILE_FLAG \<Longrightarrow> data_done (cells h r) \<Longrightarrow>
   data_index (cells h r) = Fin m \<Longrightarrow> int k \<le> m \<Longrightarrow>
   map_option fst
     (lazy_loop array (- 1) True (Fin (int (length array))) [r] (Fin (int k)) (Fin (int k)) acc h)
     = Some (acc @ rev (take k array))"
proof (induction k arbitrary: acc h m)
  case 0
  then show ?case by (subst lazy_loop.simps) simp
next
  case (Suc k)
  let ?h = "heap_set h r ((cells h r)\<lparr>data_index := Fin (int k)\<rparr>)"
  have "lazy_loop array (- 1) True (Fin (int (length array))) [r] (Fin (int (Suc k)))
          (Fin (int (Suc k))) acc h
        = lazy_loop array (- 1) True (Fin (int (length array))) [r] (Fin (int k)) (Fin (int k))
            (acc @ [array ! k]) ?h"
    using Suc.prems by (subst lazy_loop.simps) (simp add: run_entry_def num_gt_def)
  moreover have "map_option fst (lazy_loop array (- 1) True (Fin (int (length array))) [r]
      (Fin (int k)) (Fin (int k)) (acc @ [array ! k]) ?h)
      = Some ((acc @ [array ! k]) @ rev (take k array))"
    using Suc.prems by (intro Suc.IH [where m = "int k"]) simp_all
  ultimately show ?case
    using Suc.prems by (simp add: take_Suc_conv_app_nth)
qed

text \<open>A right-to-left pass over a dropWhile entry with a predicate that is not done.\<close>

lemma dropWhile_loop_right:
  "k \<le> length array \<Longrightarrow>
   data_type (cells h r) = LAZY_DROP_WHILE_FLAG \<Longrightarrow> \<not> data_done (cells h r) \<Longrightarrow>
   data_limit (cells h r) = Fin (- 1) \<Longrightarrow> data_iteratee (cells h r) = p \<Longrightarrow>
   map_option fst
     (lazy_loop array (- 1) True (Fin (int (length array))) [r] (Fin (int k)) (Fin (int k)) [] h)
     = Some (dropWhile (\<lambda>v. truthy (p v)) (rev (take k array)))"
proof (induction k arbitrary: h)
  case 0
  then show ?case by (subst lazy_loop.simps) simp
next
  case (Suc k)
  show ?case
  proof (cases "truthy (p (array ! k))")
    case True
    let ?h = "heap_set h r ((cells h r)\<lparr>data_index := Fin (int k), data_done := False\<rparr>)"
    have "lazy_loop array (- 1) True (Fin (int (length array))) [r] (Fin (int (Suc k)))
            (Fin (int (Suc k))) [] h
          = lazy_loop array (- 1) True (Fin (int (length array))) [r] (Fin (int k)) (Fin (int k))
              [] ?h"
      using Suc.prems True by (subst lazy_loop.simps) (auto simp: run_entry_def num_gt_def)
    moreover have "map_option fst (lazy_loop array (- 1) True (Fin (int (length array))) [r]
        (Fin (int k)) (Fin (int k)) [] ?h)
        = Some (dropWhile (\<lambda>v. truthy (p v)) (rev (take k array)))"
      using Suc.prems by (intro Suc.IH) simp_all
    ultimately show ?thesis
      using Suc.prems True by (simp add: take_Suc_conv_app_nth)
  next
    case False
    let ?h = "heap_set h r ((cells h r)\<lparr>data_index := Fin (int k), data_done := True\<rparr>)"
    have "lazy_loop array (- 1) True (Fin (int (length array))) [r] (Fin (int (Suc k)))
            (Fin (int (Suc k))) [] h
          = lazy_loop array (- 1) True (Fin (int (length array))) [r] (Fin (int k)) (Fin (int k))
              [array ! k] ?h"
      using Suc.prems False by (subst lazy_loop.simps) (auto simp: run_entry_def num_gt_def)
    moreover have "map_option fst (lazy_loop array (- 1) True (Fin (int (length array))) [r]
        (Fin (int k)) (Fin (int k)) [array ! k] ?h)
        = Some ([array ! k] @ rev (take k array))"
      using Suc.prems by (intro dropWhile_done_loop_right [where m = "int k"]) simp_all
    ultimately show ?thesis
      using Suc.prems False by (simp add: take_Suc_conv_app_nth)
  qed
qed

lemma baseWhile_right_eq:
  "k \<le> length array \<Longrightarrow>
   baseWhile_right array p k
     = int k - 1 - int (length (takeWhile (\<lambda>v. truthy (p v)) (rev (take k array))))"
  by (induction k) (simp_all add: take_Suc_conv_app_nth)

lemma array_dropRightWhile_eq:
  assumes "length array < 4294967296"
  shows "array_dropRightWhile array p = Inr (rev (dropWhile (\<lambda>v. truthy (p v)) (rev array)))"
proof (cases "array = []")
  case True
  then show ?thesis by (simp add: array_dropRightWhile_def)
next
  case False
  let ?t = "length (takeWhile (\<lambda>v. truthy (p v)) (rev array))"
  have t: "?t \<le> length array"
    using length_takeWhile_le [of "\<lambda>v. truthy (p v)" "rev array"] by simp
  have a: "array_dropRightWhile array p = Inr (take (length array - ?t) array)"
    using False assms t
    by (simp add: array_dropRightWhile_def baseWhile_def baseWhile_right_eq baseSlice_prefix
        nat_diff_distrib')
  have "rev (take (length array - ?t) array) = drop ?t (rev array)"
    using t by (simp add: rev_take)
  then have "rev (take (length array - ?t) array) = dropWhile (\<lambda>v. truthy (p v)) (rev array)"
    by (simp add: dropWhile_eq_drop)
  then have "take (length array - ?t) array = rev (dropWhile (\<lambda>v. truthy (p v)) (rev array))"
    by (metis rev_rev_ident)
  with a show ?thesis by simp
qed

lemma lazy_dropWhile_after_reverse:
  "result_of (case lazy_dropWhile p (lazyReverse (lazy_source array)) h of
                (w, h') \<Rightarrow> wrapper_value w h')
     = Some (Inr (Array (dropWhile (\<lambda>v. truthy (p v)) (rev array))))"
proof -
  let ?d = "\<lparr>data_done = False, data_count = 0, data_index = Fin 0, data_iteratee = p,
             data_limit = Fin (- 1), data_type = LAZY_DROP_WHILE_FLAG\<rparr>"
  let ?h = "h\<lparr>cells := (cells h)(next_ref h := ?d), next_ref := Suc (next_ref h)\<rparr>"
  have "map_option fst
     (lazy_loop array (- 1) True (Fin (int (length array))) [next_ref h]
        (Fin (int (length array))) (Fin (int (length array))) [] ?h)
     = Some (dropWhile (\<lambda>v. truthy (p v)) (rev (take (length array) array)))"
    by (rule dropWhile_loop_right) simp_all
  then show ?thesis
    by (auto simp: lazy_dropWhile_def lazy_iteratee_method_def lazy_source_def lazyReverse_def
        new_LazyWrapper_def set_dir_def set_iteratees_def set_filtered_def heap_new_def
        lodash_def baseWrapperValue_def lazyValue_def result_of_def option.map_comp comp_def
        split_def)
qed

lemma lazy_takeWhile_after_reverse:
  "result_of (case lazy_takeWhile p (lazyReverse (lazy_source array)) h of
                (w, h') \<Rightarrow> wrapper_value w h')
     = Some (Inr (Array (takeWhile (\<lambda>v. truthy (p v)) (rev array))))"
proof -
  let ?d = "\<lparr>data_done = False, data_count = 0, data_index = Fin 0, data_iteratee = p,
             data_limit = Fin (- 1), data_type = LAZY_TAKE_WHILE\<rparr>"
  let ?h = "h\<lparr>cells := (cells h)(next_ref h := ?d), next_ref := Suc (next_ref h)\<rparr>"
  have "lazy_loop array (- 1) True (Fin (int (length array))) [next_ref h]
        (Fin (int (length array))) (Fin (int (length array))) [] ?h
     = Some ([] @ takeWhile (\<lambda>v. truthy (data_iteratee (cells ?h (next_ref h)) v))
               (rev (take (length array) array)), ?h)"
    by (rule takeWhile_loop_right) simp_all
  then show ?thesis
    by (auto simp: lazy_takeWhile_def lazy_iteratee_method_def lazy_source_def lazyReverse_def
        new_LazyWrapper_def set_dir_def set_iteratees_def set_filtered_def heap_new_def
        lodash_def baseWrapperValue_def lazyValue_def result_of_def)
qed

lemma run_entry_reset:
  assumes "data_type (cells h r) = LAZY_DROP_WHILE_FLAG" and "data_done (cells h r)"
    and "if isRight then num_gt idx (data_index (cells h r))
         else num_lt idx (data_index (cells h r))"
  shows "run_entry isRight idx r v h
           = run_entry isRight idx r v
               (heap_set h r ((cells h r)\<lparr>data_count := 0, data_done := False\<rparr>))"
  using assms by (simp add: run_entry_def Let_def)

lemma lazyReverse_value_filtered:
  assumes "wrapper_value (LazyWrapper w acts d True its tc vs) h = Some (Inr (Array xs), h')"
  shows "wrapper_value (lazyReverse (LazyWrapper w acts d True its tc vs)) h
           = Some (Inr (Array (rev xs)), h')"
  using assms
  by (simp add: lazyReverse_filtered lazyValue_reversing del: wrapper_value.simps(3)
        add: wrapper_value.simps(3) [of "LazyWrapper w acts d True its tc vs"])


lemma array_takeRightWhile_eq:
  assumes "length array < 4294967296"
  shows "array_takeRightWhile array p = Inr (rev (takeWhile (\<lambda>v. truthy (p v)) (rev array)))"
proof (cases "array = []")
  case True
  then show ?thesis by (simp add: array_takeRightWhile_def)
next
  case False
  let ?t = "length (takeWhile (\<lambda>v. truthy (p v)) (rev array))"
  have t: "?t \<le> length array"
    using length_takeWhile_le [of "\<lambda>v. truthy (p v)" "rev array"] by simp
  have idx: "baseWhile_right array p (length array) + 1 = int (length array - ?t)"
    using t by (simp add: baseWhile_right_eq)
  have "array_takeRightWhile array p
          = baseSlice array (Num (Fin (baseWhile_right array p (length array) + 1)))
              (Num (Fin (int (length array))))"
    using False by (simp add: array_takeRightWhile_def baseWhile_def Let_def)
  also have "\<dots> = baseSlice array (Num (Fin (int (length array - ?t))))
              (Num (Fin (int (length array))))"
    by (simp only: idx)
  also have "\<dots> = Inr (drop (nat (int (length array - ?t))) array)"
    using assms by (intro baseSlice_suffix) simp_all
  finally have a: "array_takeRightWhile array p = Inr (drop (length array - ?t) array)"
    by simp
  have "rev (drop (length array - ?t) array) = take ?t (rev array)"
    using t by (simp add: rev_drop)
  then have "rev (drop (length array - ?t) array) = takeWhile (\<lambda>v. truthy (p v)) (rev array)"
    using takeWhile_eq_take [of "\<lambda>v. truthy (p v)" "rev array"] by simp
  then have "drop (length array - ?t) array = rev (takeWhile (\<lambda>v. truthy (p v)) (rev array))"
    by (metis rev_rev_ident)
  with a show ?thesis by simp
qed

lemma lazy_dropWhile_filtered:
  "\<exists>its. fst (lazy_dropWhile p (lazyReverse (lazy_source array)) h)
           = LazyWrapper (lodash (Array array)) None (- 1) True its PosInf None"
  "\<exists>its. fst (lazy_takeWhile p (lazyReverse (lazy_source array)) h)
           = LazyWrapper (lodash (Array array)) None (- 1) True its PosInf None"
  by (simp_all add: lazy_dropWhile_def lazy_takeWhile_def lazy_iteratee_method_def
      lazy_source_def lazyReverse_def new_LazyWrapper_def set_dir_def set_iteratees_def
      set_filtered_def heap_new_def split_def)

lemma lazy_dropRightWhile_value:
  "result_of (case lazy_dropRightWhile p (lazy_source array) h of
                (w, h') \<Rightarrow> wrapper_value w h')
     = Some (Inr (Array (rev (dropWhile (\<lambda>v. truthy (p v)) (rev array)))))"
proof -
  obtain w h' where r: "lazy_dropWhile p (lazyReverse (lazy_source array)) h = (w, h')"
    by (cases "lazy_dropWhile p (lazyReverse (lazy_source array)) h")
  from lazy_dropWhile_filtered(1) [of p array h] r obtain its where
    w: "w = LazyWrapper (lodash (Array array)) None (- 1) True its PosInf None"
    by auto
  from lazy_dropWhile_after_reverse [of p array h] r obtain h1 where
    "wrapper_value w h' = Some (Inr (Array (dropWhile (\<lambda>v. truthy (p v)) (rev array))), h1)"
    using result_ofD by fastforce
  from lazyReverse_value_filtered [OF this [unfolded w]] r w show ?thesis
    by (simp add: lazy_dropRightWhile_def result_of_def del: wrapper_value.simps)
qed

lemma lazy_takeRightWhile_value:
  "result_of (case lazy_takeRightWhile p (lazy_source array) h of
                (w, h') \<Rightarrow> wrapper_value w h')
     = Some (Inr (Array (rev (takeWhile (\<lambda>v. truthy (p v)) (rev array)))))"
proof -
  obtain w h' where r: "lazy_takeWhile p (lazyReverse (lazy_source array)) h = (w, h')"
    by (cases "lazy_takeWhile p (lazyReverse (lazy_source array)) h")
  from lazy_dropWhile_filtered(2) [of p array h] r obtain its where
    w: "w = LazyWrapper (lodash (Array array)) None (- 1) True its PosInf None"
    by auto
  from lazy_takeWhile_after_reverse [of p array h] r obtain h1 where
    "wrapper_value w h' = Some (Inr (Array (takeWhile (\<lambda>v. truthy (p v)) (rev array))), h1)"
    using result_ofD by fastforce
  from lazyReverse_value_filtered [OF this [unfolded w]] r w show ?thesis
    by (simp add: lazy_takeRightWhile_def result_of_def del: wrapper_value.simps)
qed

text \<open>
  Claim C3 (reversed while-semantics), as stated: for a pipeline \<open>P\<close> that holds a
  dropWhile or takeWhile entry, \<open>P.reverse().value()\<close> equals evaluating the predicate
  from the opposite end of the array. It does not: \<open>P\<close> is filtered, so \<open>reverse()\<close>
  wraps it, and the predicate is still evaluated from the end \<open>P\<close> starts at. On
  \<open>[1, 2, 3, 4]\<close> with \<open>dropWhile(less_than_three)\<close> the result is \<open>[4, 3]\<close>, the reverse
  of \<open>[3, 4]\<close>; dropping from the tail inward drops nothing and gives \<open>[4, 3, 2, 1]\<close>.
\<close>

theorem reverse_after_dropWhile_counterexample:
  "result_of (wrapper_value (lazyReverse (fst dropWhile_example)) (snd dropWhile_example))
     = Some (Inr (Array (numbers [4, 3])))
   \<and> array_dropRightWhile (numbers [1, 2, 3, 4]) less_than_three = Inr (numbers [1, 2, 3, 4])
   \<and> result_of (wrapper_value (lazyReverse (fst dropWhile_example)) (snd dropWhile_example))
     \<noteq> Some (Inr (Array (rev (numbers [1, 2, 3, 4]))))"
  by code_simp

text \<open>
  Claim C3, amended. For every filtered lazy wrapper \<open>P\<close> (one that holds a dropWhile or
  takeWhile entry is filtered) whose \<open>value()\<close> returns an array,
  \<open>P.reverse().value()\<close> is the reverse of that array: the predicate is still evaluated
  from the end \<open>P\<close> starts at. The predicate is evaluated from the opposite end by
  \<open>dropRightWhile\<close> and \<open>takeRightWhile\<close>, which the lazy wrapper builds as
  \<open>this.reverse().dropWhile(p).reverse()\<close> and \<open>this.reverse().takeWhile(p).reverse()\<close>:
  on an array, \<open>.dropRightWhile(p).value()\<close> drops from the tail inward and
  \<open>.takeRightWhile(p).value()\<close> takes from the tail inward, and they are what the eager
  \<open>dropRightWhile\<close> and \<open>takeRightWhile\<close> return (arrays have fewer than 2^32
  elements). In the drop-while branch an entry whose \<open>done\<close> is set is reset
  (\<open>count = 0\<close>, \<open>done = false\<close>) when the current index lies before the index it
  recorded (after it, in a pass from the right).
\<close>

theorem reverse_while_semantics:
  "(wrapper_value (LazyWrapper w acts d True its tc vs) h = Some (Inr (Array xs), h1) \<longrightarrow>
      wrapper_value (lazyReverse (LazyWrapper w acts d True its tc vs)) h
        = Some (Inr (Array (rev xs)), h1))
   \<and> result_of (case lazy_dropRightWhile p (lazy_source array) h of
                  (w', h') \<Rightarrow> wrapper_value w' h')
       = Some (Inr (Array (rev (dropWhile (\<lambda>v. truthy (p v)) (rev array)))))
   \<and> result_of (case lazy_takeRightWhile p (lazy_source array) h of
                  (w', h') \<Rightarrow> wrapper_value w' h')
       = Some (Inr (Array (rev (takeWhile (\<lambda>v. truthy (p v)) (rev array)))))
   \<and> (length array < 4294967296 \<longrightarrow>
        array_dropRightWhile array p = Inr (rev (dropWhile (\<lambda>v. truthy (p v)) (rev array)))
        \<and> array_takeRightWhile array p = Inr (rev (takeWhile (\<lambda>v. truthy (p v)) (rev array))))
   \<and> (data_type (cells h r) = LAZY_DROP_WHILE_FLAG \<and> data_done (cells h r) \<and>
        (if isRight then num_gt idx (data_index (cells h r))
         else num_lt idx (data_index (cells h r))) \<longrightarrow>
        run_entry isRight idx r v h
          = run_entry isRight idx r v
              (heap_set h r ((cells h r)\<lparr>data_count := 0, data_done := False\<rparr>)))"
  using lazyReverse_value_filtered [of w acts d its tc vs h xs h1]
    lazy_dropRightWhile_value [of p array h] lazy_takeRightWhile_value [of p array h]
    array_dropRightWhile_eq [of array p] array_takeRightWhile_eq [of array p]
    run_entry_reset [of h r isRight idx v]
  by simp

lemma dropWhile_example_eq:
  "dropWhile_example =
     (LazyWrapper (lodash (Array (numbers [1, 2, 3, 4]))) None 1 True (Some [0]) PosInf None,
      snd dropWhile_example)"
  by (simp add: dropWhile_example_def lazy_dropWhile_def lazy_iteratee_method_def lazy_source_def
      new_LazyWrapper_def heap_new_def set_iteratees_def set_filtered_def empty_heap_def)

theorem reverse_while_semantics_witness:
  "result_of (wrapper_value (fst dropWhile_example) (snd dropWhile_example))
     = Some (Inr (Array (numbers [3, 4])))
   \<and> result_of (wrapper_value (lazyReverse (fst dropWhile_example)) (snd dropWhile_example))
     = Some (Inr (Array (numbers [4, 3])))
   \<and> result_of (case lazy_dropRightWhile less_than_three (lazy_source (numbers [3, 4, 1, 2]))
                      empty_heap of (w', h') \<Rightarrow> wrapper_value w' h')
       = Some (Inr (Array (numbers [3, 4])))
   \<and> result_of (case lazy_takeRightWhile less_than_three (lazy_source (numbers [3, 4, 1, 2]))
                      empty_heap of (w', h') \<Rightarrow> wrapper_value w' h')
       = Some (Inr (Array (numbers [1, 2])))
   \<and> length (numbers [3, 4, 1, 2]) < 4294967296
   \<and> array_dropRightWhile (numbers [3, 4, 1, 2]) less_than_three = Inr (numbers [3, 4])
   \<and> array_takeRightWhile (numbers [3, 4, 1, 2]) less_than_three = Inr (numbers [1, 2])
   \<and> data_type (cells stale_done_heap 0) = LAZY_DROP_WHILE_FLAG
   \<and> data_done (cells stale_done_heap 0)
   \<and> num_lt (Fin 0) (data_index (cells stale_done_heap 0))
   \<and> fst (run_entry False (Fin 0) 0 (Number (Fin 1)) stale_done_heap) = ContinueOuter
   \<and> data_count (cells (snd (run_entry False (Fin 0) 0 (Number (Fin 1)) stale_done_heap)) 0) = 0"
proof -
  have v: "result_of (wrapper_value (fst dropWhile_example) (snd dropWhile_example))
             = Some (Inr (Array (numbers [3, 4])))"
    by code_simp
  then obtain h1 where
    "wrapper_value (fst dropWhile_example) (snd dropWhile_example)
       = Some (Inr (Array (numbers [3, 4])), h1)"
    using result_ofD by blast
  then have a: "wrapper_value
      (LazyWrapper (lodash (Array (numbers [1, 2, 3, 4]))) None 1 True (Some [0]) PosInf None)
      (snd dropWhile_example) = Some (Inr (Array (numbers [3, 4])), h1)"
    by (subst (asm) dropWhile_example_eq) simp
  have b: "length (numbers [3, 4, 1, 2]) < 4294967296" by (simp add: numbers_def)
  have c: "data_type (cells stale_done_heap 0) = LAZY_DROP_WHILE_FLAG"
    "data_done (cells stale_done_heap 0)"
    "num_lt (Fin 0) (data_index (cells stale_done_heap 0))"
    by (simp_all add: stale_done_heap_def)
  have d: "rev (numbers [3, 4]) = numbers [4, 3]"
    "rev (dropWhile (\<lambda>v. truthy (less_than_three v)) (rev (numbers [3, 4, 1, 2])))
       = numbers [3, 4]"
    "rev (takeWhile (\<lambda>v. truthy (less_than_three v)) (rev (numbers [3, 4, 1, 2])))
       = numbers [1, 2]"
    by (simp_all add: numbers_def)
  have e: "fst (run_entry False (Fin 0) 0 (Number (Fin 1))
             (heap_set stale_done_heap 0
                ((cells stale_done_heap 0)\<lparr>data_count := 0, data_done := False\<rparr>)))
           = ContinueOuter"
    "data_count (cells (snd (run_entry False (Fin 0) 0 (Number (Fin 1))
             (heap_set stale_done_heap 0
                ((cells stale_done_heap 0)\<lparr>data_count := 0, data_done := False\<rparr>)))) 0) = 0"
    by (simp_all add: run_entry_def stale_done_heap_def empty_heap_def Let_def num_gt_def)
  from reverse_while_semantics
         [of "lodash (Array (numbers [1, 2, 3, 4]))" None 1 "Some [0]" PosInf None
             "snd dropWhile_example" "numbers [3, 4]" h1 less_than_three "numbers [3, 4, 1, 2]"
             0 False "Fin 0" "Number (Fin 1)"]
       reverse_while_semantics
         [of "lodash (Array (numbers [1, 2, 3, 4]))" None 1 "Some [0]" PosInf None
             empty_heap "numbers [3, 4]" h1 less_than_three "numbers [3, 4, 1, 2]"
             0 False "Fin 0" "Number (Fin 1)"]
       reverse_while_semantics
         [of "lodash (Array (numbers [1, 2, 3, 4]))" None 1 "Some [0]" PosInf None
             stale_done_heap "numbers [3, 4]" h1 less_than_three "numbers [3, 4, 1, 2]"
             0 False "Fin 0" "Number (Fin 1)"]
       a b c d e v
  show ?thesis
    by (subst (2) dropWhile_example_eq) (simp add: result_of_def)
qed

subsection \<open>The take count\<close>

lemma num_lt_nativeMin_Fin:
  "num_lt (Fin a) (nativeMin tc (Fin k)) \<longleftrightarrow> num_lt (Fin a) tc \<and> a < k"
  by (cases tc) auto

lemma nativeMin_assoc_Fin:
  "nativeMin len (nativeMin tc (Fin k)) = nativeMin (nativeMin len tc) (Fin k)"
  by (cases len; cases tc) (auto simp: min_def)

text \<open>
  A pass over \<open>n\<close> positions returns; its result extends the accumulated one; and with
  the take count lowered to \<open>k\<close> the same pass returns the first \<open>k\<close> elements of it.
\<close>

lemma lazy_loop_take:
  "\<exists>res h1. lazy_loop array d isRight tc its (Fin (int n)) index acc h = Some (res, h1)
     \<and> (\<exists>ys. res = acc @ ys)
     \<and> (\<forall>k. length acc \<le> k \<longrightarrow>
          (\<exists>h2. lazy_loop array d isRight (nativeMin tc (Fin (int k))) its (Fin (int n)) index
                   acc h = Some (take k res, h2)))"
proof (induction n arbitrary: index acc h)
  case 0
  show ?case by (subst lazy_loop.simps, subst lazy_loop.simps) simp
next
  case (Suc n)
  let ?i = "num_add index (Fin d)"
  let ?step = "run_iteratees isRight ?i its (array_get array ?i) h"
  have len: "num_sub (Fin (int (Suc n))) (Fin 1) = Fin (int n)" by simp
  show ?case
  proof (cases "num_lt (Fin (int (length acc))) tc")
    case False
    then show ?thesis
      by (subst lazy_loop.simps, subst lazy_loop.simps) (simp add: num_lt_nativeMin_Fin)
  next
    case True
    obtain out h' where step: "?step = (out, h')" by (cases ?step)
    show ?thesis
    proof (cases out)
      case (Emit v)
      from Suc.IH [of ?i "acc @ [v]" h'] obtain res h1 where
        r: "lazy_loop array d isRight tc its (Fin (int n)) ?i (acc @ [v]) h' = Some (res, h1)"
        and p: "\<exists>ys. res = (acc @ [v]) @ ys"
        and t: "\<And>k. length (acc @ [v]) \<le> k \<Longrightarrow>
                \<exists>h2. lazy_loop array d isRight (nativeMin tc (Fin (int k))) its (Fin (int n)) ?i
                        (acc @ [v]) h' = Some (take k res, h2)"
        by blast
      have a: "lazy_loop array d isRight tc its (Fin (int (Suc n))) index acc h = Some (res, h1)"
        using True step Emit r by (subst lazy_loop.simps) simp
      have b: "\<exists>h2. lazy_loop array d isRight (nativeMin tc (Fin (int k))) its (Fin (int (Suc n)))
                      index acc h = Some (take k res, h2)" if k: "length acc \<le> k" for k
      proof (cases "length acc < k")
        case True
        then have "length (acc @ [v]) \<le> k" by simp
        from t [OF this] obtain h2 where
          "lazy_loop array d isRight (nativeMin tc (Fin (int k))) its (Fin (int n)) ?i
             (acc @ [v]) h' = Some (take k res, h2)" by blast
        then show ?thesis
          using True \<open>num_lt (Fin (int (length acc))) tc\<close> step Emit
          by (subst lazy_loop.simps) (simp add: num_lt_nativeMin_Fin)
      next
        case False
        with k have "length acc = k" by simp
        then have "take k res = acc" using p by auto
        then show ?thesis
          using False by (subst lazy_loop.simps) (simp add: num_lt_nativeMin_Fin)
      qed
      from a b p show ?thesis by auto
    next
      case ContinueOuter
      from Suc.IH [of ?i acc h'] obtain res h1 where
        r: "lazy_loop array d isRight tc its (Fin (int n)) ?i acc h' = Some (res, h1)"
        and p: "\<exists>ys. res = acc @ ys"
        and t: "\<And>k. length acc \<le> k \<Longrightarrow>
                \<exists>h2. lazy_loop array d isRight (nativeMin tc (Fin (int k))) its (Fin (int n)) ?i
                        acc h' = Some (take k res, h2)"
        by blast
      have a: "lazy_loop array d isRight tc its (Fin (int (Suc n))) index acc h = Some (res, h1)"
        using True step ContinueOuter r by (subst lazy_loop.simps) simp
      have b: "\<exists>h2. lazy_loop array d isRight (nativeMin tc (Fin (int k))) its (Fin (int (Suc n)))
                      index acc h = Some (take k res, h2)" if k: "length acc \<le> k" for k
      proof (cases "length acc < k")
        case True
        from t [OF k] obtain h2 where
          "lazy_loop array d isRight (nativeMin tc (Fin (int k))) its (Fin (int n)) ?i
             acc h' = Some (take k res, h2)" by blast
        then show ?thesis
          using True \<open>num_lt (Fin (int (length acc))) tc\<close> step ContinueOuter
          by (subst lazy_loop.simps) (simp add: num_lt_nativeMin_Fin)
      next
        case False
        with k have "length acc = k" by simp
        then have "take k res = acc" using p by auto
        then show ?thesis
          using False by (subst lazy_loop.simps) (simp add: num_lt_nativeMin_Fin)
      qed
      from a b p show ?thesis by auto
    next
      case BreakOuter
      have a: "lazy_loop array d isRight tc its (Fin (int (Suc n))) index acc h = Some (acc, h')"
        using True step BreakOuter by (subst lazy_loop.simps) simp
      have b: "\<exists>h2. lazy_loop array d isRight (nativeMin tc (Fin (int k))) its (Fin (int (Suc n)))
                      index acc h = Some (take k acc, h2)" if k: "length acc \<le> k" for k
        using k True step BreakOuter
        by (subst lazy_loop.simps) (simp add: num_lt_nativeMin_Fin)
      from a b show ?thesis by auto
    qed
  qed
qed

lemma lazy_loop_no_run:
  "\<not> (num_truthy len \<and> num_lt (Fin (int (length acc))) tc) \<Longrightarrow>
   lazy_loop array d isRight tc its len index acc h = Some (acc, h)"
  by (subst lazy_loop.simps) auto

lemma not_num_lt_nativeMin:
  "\<not> num_lt (Fin a) len \<Longrightarrow> \<not> num_lt (Fin a) (nativeMin len tc)"
  by (cases len; cases tc) auto

lemma run_iteratees_maps:
  "\<forall>r\<in>set its. data_type (cells h r) = LAZY_MAP_FLAG \<Longrightarrow>
   \<exists>v'. run_iteratees isRight idx its v h = (Emit v', h)"
  by (induction its arbitrary: v) (simp_all add: run_entry_def)

text \<open>
  With map entries only every position emits, so a pass under a take count of at most
  \<open>k\<close> never reaches beyond \<open>k\<close> positions: the length of the window can be cut to it.
\<close>

lemma lazy_loop_maps_take:
  assumes m: "\<forall>r\<in>set its. data_type (cells h r) = LAZY_MAP_FLAG"
  shows "\<exists>res. lazy_loop array d isRight tc its (Fin (int n)) index acc h = Some (res, h)
     \<and> (\<exists>ys. res = acc @ ys)
     \<and> (\<forall>k. length acc \<le> k \<longrightarrow>
          lazy_loop array d isRight (nativeMin tc (Fin (int k))) its
            (Fin (int (min n (k - length acc)))) index acc h = Some (take k res, h))"
proof (induction n arbitrary: index acc)
  case 0
  show ?case by (subst lazy_loop.simps, subst lazy_loop.simps) simp
next
  case (Suc n)
  let ?i = "num_add index (Fin d)"
  show ?case
  proof (cases "num_lt (Fin (int (length acc))) tc")
    case False
    then show ?thesis
      by (subst lazy_loop.simps, subst lazy_loop.simps) (simp add: num_lt_nativeMin_Fin)
  next
    case True
    from run_iteratees_maps [OF m] obtain v where
      step: "run_iteratees isRight ?i its (array_get array ?i) h = (Emit v, h)" by blast
    from Suc.IH [of ?i "acc @ [v]"] obtain res where
      r: "lazy_loop array d isRight tc its (Fin (int n)) ?i (acc @ [v]) h = Some (res, h)"
      and p: "\<exists>ys. res = (acc @ [v]) @ ys"
      and t: "\<And>k. length (acc @ [v]) \<le> k \<Longrightarrow>
              lazy_loop array d isRight (nativeMin tc (Fin (int k))) its
                (Fin (int (min n (k - length (acc @ [v]))))) ?i (acc @ [v]) h
              = Some (take k res, h)"
      by blast
    have a: "lazy_loop array d isRight tc its (Fin (int (Suc n))) index acc h = Some (res, h)"
      using True step r by (subst lazy_loop.simps) simp
    have b: "lazy_loop array d isRight (nativeMin tc (Fin (int k))) its
               (Fin (int (min (Suc n) (k - length acc)))) index acc h = Some (take k res, h)"
      if k: "length acc \<le> k" for k
    proof (cases "length acc < k")
      case True
      then have l: "min (Suc n) (k - length acc) = Suc (min n (k - length (acc @ [v])))"
        by simp
      from True have "length (acc @ [v]) \<le> k" by simp
      from t [OF this] show ?thesis
        unfolding l
        using True \<open>num_lt (Fin (int (length acc))) tc\<close> step
        by (subst lazy_loop.simps) (simp add: num_lt_nativeMin_Fin)
    next
      case False
      with k have "length acc = k" by simp
      then have "take k res = acc" using p by auto
      then show ?thesis
        using False by (subst lazy_loop.simps) (simp add: num_lt_nativeMin_Fin)
    qed
    from a b p show ?thesis by auto
  qed
qed

lemma getView_append:
  "getView start end (ts @ [t]) = (case getView start end ts of (s, e) \<Rightarrow> getView s e [t])"
  by (induction ts arbitrary: start "end") (simp_all add: Let_def split: view_type.splits)

lemma getView_bounds:
  "\<forall>t\<in>set ts. valid_size (view_size t) \<Longrightarrow>
   start = PosInf \<or> (\<exists>a. start = Fin a) \<Longrightarrow> end = NegInf \<or> (\<exists>b. end = Fin b) \<Longrightarrow>
   (fst (getView start end ts) = PosInf \<or> (\<exists>a. fst (getView start end ts) = Fin a)) \<and>
   (snd (getView start end ts) = NegInf \<or> (\<exists>b. snd (getView start end ts) = Fin b))"
proof (induction ts arbitrary: start "end")
  case Nil
  then show ?case by simp
next
  case (Cons t ts)
  from Cons.prems(1) have z: "view_size t = PosInf \<or> (\<exists>c. view_size t = Fin c)"
    and rest: "\<forall>t\<in>set ts. valid_size (view_size t)"
    by (simp_all add: valid_size_def)
  show ?case
  proof (cases "view_type t")
    case drop_view
    have "num_add start (view_size t) = PosInf \<or> (\<exists>a. num_add start (view_size t) = Fin a)"
      using z Cons.prems(2) by auto
    from Cons.IH [OF rest this Cons.prems(3)] show ?thesis
      using drop_view by (simp add: Let_def)
  next
    case dropRight_view
    have "num_sub end (view_size t) = NegInf \<or> (\<exists>b. num_sub end (view_size t) = Fin b)"
      using z Cons.prems(3) by auto
    from Cons.IH [OF rest Cons.prems(2) this] show ?thesis
      using dropRight_view by (simp add: Let_def)
  next
    case take_view
    have "nativeMin end (num_add start (view_size t)) = NegInf
          \<or> (\<exists>b. nativeMin end (num_add start (view_size t)) = Fin b)"
      using z Cons.prems(2,3) by auto
    from Cons.IH [OF rest Cons.prems(2) this] show ?thesis
      using take_view by (simp add: Let_def)
  next
    case takeRight_view
    have "nativeMax start (num_sub end (view_size t)) = PosInf
          \<or> (\<exists>a. nativeMax start (num_sub end (view_size t)) = Fin a)"
      using z Cons.prems(2,3) by auto
    from Cons.IH [OF rest this Cons.prems(3)] show ?thesis
      using takeRight_view by (simp add: Let_def)
  qed
qed

lemma run_entry_type:
  "data_type (cells (snd (run_entry isRight idx r v h)) a) = data_type (cells h a)"
  by (simp add: run_entry_def Let_def heap_set_def)

lemma run_iteratees_type:
  "data_type (cells (snd (run_iteratees isRight idx its v h)) a) = data_type (cells h a)"
proof (induction its arbitrary: v h)
  case Nil
  show ?case by simp
next
  case (Cons r its)
  obtain out h' where s: "run_entry isRight idx r v h = (out, h')"
    by (cases "run_entry isRight idx r v h")
  then have "data_type (cells h' a) = data_type (cells h a)"
    using run_entry_type [of isRight idx r v h a] by simp
  then show ?case
    using s Cons.IH by (cases out) simp_all
qed

lemma lazy_loop_type:
  assumes "lazy_loop array d isRight tc its len index acc h = Some y"
  shows "data_type (cells (snd y) a) = data_type (cells h a)"
proof (rule lazy_loop.raw_induct
    [where P = "\<lambda>_ _ _ _ _ _ _ _ h y. data_type (cells (snd y) a) = data_type (cells h a)",
     OF _ assms], goal_cases)
  case (1 loop array d isRight tc its len index result h y)
  let ?i = "num_add index (Fin d)"
  obtain out h' where s: "run_iteratees isRight ?i its (array_get array ?i) h = (out, h')"
    by (cases "run_iteratees isRight ?i its (array_get array ?i) h")
  then have t: "data_type (cells h' a) = data_type (cells h a)"
    using run_iteratees_type [of isRight ?i its "array_get array ?i" h a] by simp
  show ?case
  proof (cases "num_truthy len \<and> num_lt (Fin (int (length result))) tc")
    case False
    with 1(2) show ?thesis by auto
  next
    case True
    show ?thesis
    proof (cases out)
      case (Emit v)
      with True 1(2) s have "loop array d isRight tc its (num_sub len (Fin 1)) ?i (result @ [v]) h' = Some y"
        by simp
      from 1(1) [OF this] t show ?thesis by simp
    next
      case ContinueOuter
      with True 1(2) s have "loop array d isRight tc its (num_sub len (Fin 1)) ?i result h' = Some y"
        by simp
      from 1(1) [OF this] t show ?thesis by simp
    next
      case BreakOuter
      with True 1(2) s t show ?thesis by auto
    qed
  qed
qed

lemma lazyValue_Array:
  "lazyValue this (Array xs) h =
     map_option (\<lambda>(res, h'). (Inr (Array res), h'))
       (lazy_loop xs (dir this) (dir this < 0)
          (nativeMin (num_sub (snd (view_of this xs)) (fst (view_of this xs))) (takeCount this))
          (iteratees_of this)
          (num_sub (snd (view_of this xs)) (fst (view_of this xs)))
          (if dir this < 0 then snd (view_of this xs) else num_sub (fst (view_of this xs)) (Fin 1))
          [] h)"
  by (simp add: lazyValue_def Let_def view_of_def iteratees_of_def)

lemma lazyValue_type:
  assumes "lazyValue this v h = Some (r, h')"
  shows "data_type (cells h' a) = data_type (cells h a)"
proof (cases v)
  case (Array xs)
  with assms obtain res where
    "lazy_loop xs (dir this) (dir this < 0)
       (nativeMin (num_sub (snd (view_of this xs)) (fst (view_of this xs))) (takeCount this))
       (iteratees_of this)
       (num_sub (snd (view_of this xs)) (fst (view_of this xs)))
       (if dir this < 0 then snd (view_of this xs) else num_sub (fst (view_of this xs)) (Fin 1))
       [] h = Some (res, h')"
    by (auto simp: lazyValue_Array split: prod.splits)
  from lazy_loop_type [OF this, of a] show ?thesis by simp
qed (use assms in \<open>simp_all add: lazyValue_def\<close>)

lemma wrapper_value_type:
  "wrapper_value w h = Some (r, h') \<Longrightarrow> data_type (cells h' a) = data_type (cells h a)"
proof (induction w h arbitrary: r h' rule: wrapper_value.induct)
  case (1 v h)
  then show ?case by simp
next
  case (2 w acts c h)
  show ?case
  proof (cases w)
    case (Plain v)
    with 2(2) show ?thesis by simp
  next
    case (LodashWrapper w' acts' c')
    with 2(2) show ?thesis by simp
  next
    case (LazyWrapper w0 a0 d0 f0 i0 t0 v0)
    show ?thesis
    proof (cases "wrapper_value w h")
      case None
      with 2(2) LazyWrapper show ?thesis by simp
    next
      case (Some p)
      obtain r0 h0 where p: "p = (r0, h0)" by (cases p)
      from 2(1) [OF LazyWrapper, of r0 h0] Some p
      have t: "data_type (cells h0 a) = data_type (cells h a)" by simp
      from 2(2) LazyWrapper Some p have "h' = h0"
        by (cases r0) (simp_all del: wrapper_value.simps(3))
      with t show ?thesis by simp
    qed
  qed
next
  case (3 w acts d f its tc vs h)
  show ?case
  proof (cases "wrapper_value w h")
    case None
    with 3(2) show ?thesis by simp
  next
    case (Some p)
    obtain r0 h0 where p: "p = (r0, h0)" by (cases p)
    from 3(1) [of r0 h0] Some p have t: "data_type (cells h0 a) = data_type (cells h a)" by simp
    show ?thesis
    proof (cases r0)
      case (Inl e)
      with 3(2) Some p t show ?thesis by simp
    next
      case (Inr v)
      with 3(2) Some p have "lazyValue (LazyWrapper w acts d f its tc vs) v h0 = Some (r, h')"
        by simp
      from lazyValue_type [OF this, of a] t show ?thesis by simp
    qed
  qed
qed

lemma nativeMin_Fin_comm:
  "nativeMin (nativeMin len (Fin k)) tc = nativeMin (nativeMin len tc) (Fin k)"
  by (cases len; cases tc) (auto simp: min_def)

lemma view_take:
  assumes "s = PosInf \<or> (\<exists>a. s = Fin a)" and "e = NegInf \<or> (\<exists>b. e = Fin b)" and "0 \<le> k"
  shows "num_sub (nativeMin e (num_add s (Fin k))) s = nativeMin (num_sub e s) (Fin k)"
    and "num_sub e (nativeMax s (num_sub e (Fin k))) = nativeMin (num_sub e s) (Fin k)"
  using assms by auto

lemma view_len:
  assumes "s = PosInf \<or> (\<exists>a. s = Fin a)" and "e = NegInf \<or> (\<exists>b. e = Fin b)"
  shows "num_sub e s = NegInf \<or> (\<exists>m. num_sub e s = Fin m)"
  using assms by auto

lemma view_of_bounds:
  assumes "\<forall>t\<in>set (case vs of None \<Rightarrow> [] | Some ts \<Rightarrow> ts). valid_size (view_size t)"
  shows "(fst (view_of (LazyWrapper w acts d f its tc vs) array) = PosInf
          \<or> (\<exists>a. fst (view_of (LazyWrapper w acts d f its tc vs) array) = Fin a))
       \<and> (snd (view_of (LazyWrapper w acts d f its tc vs) array) = NegInf
          \<or> (\<exists>b. snd (view_of (LazyWrapper w acts d f its tc vs) array) = Fin b))"
  unfolding view_of_def using assms by (intro getView_bounds) simp_all

lemma view_of_take_view:
  "view_of (LazyWrapper w acts d f its tc
       (Some ((case vs of None \<Rightarrow> [] | Some ts \<Rightarrow> ts)
              @ [\<lparr>view_size = z, view_type = take_view\<rparr>]))) array
     = (fst (view_of (LazyWrapper w' acts' d' f' its' tc' vs) array),
        nativeMin (snd (view_of (LazyWrapper w' acts' d' f' its' tc' vs) array))
          (num_add (fst (view_of (LazyWrapper w' acts' d' f' its' tc' vs) array)) z))"
  by (simp add: view_of_def getView_append Let_def split: prod.splits)

lemma view_of_takeRight_view:
  "view_of (LazyWrapper w acts d f its tc
       (Some ((case vs of None \<Rightarrow> [] | Some ts \<Rightarrow> ts)
              @ [\<lparr>view_size = z, view_type = takeRight_view\<rparr>]))) array
     = (nativeMax (fst (view_of (LazyWrapper w' acts' d' f' its' tc' vs) array))
          (num_sub (snd (view_of (LazyWrapper w' acts' d' f' its' tc' vs) array)) z),
        snd (view_of (LazyWrapper w' acts' d' f' its' tc' vs) array))"
  by (simp add: view_of_def getView_append Let_def split: prod.splits)

lemma lazy_take_filtered:
  "0 \<le> k \<Longrightarrow> lazy_take (Num (Fin k)) (LazyWrapper w acts d True its tc vs) h
     = (Inr (LazyWrapper w acts d True its (nativeMin tc (Fin k)) vs), h)"
  by (simp add: lazy_take_def lazy_drop_take_def size_of_number set_takeCount_def max_def)

lemma lazy_take_unfiltered:
  "0 \<le> k \<Longrightarrow> lazy_take (Num (Fin k)) (LazyWrapper w acts d False its tc vs) h
     = (Inr (LazyWrapper w acts d False its tc
          (Some ((case vs of None \<Rightarrow> [] | Some ts \<Rightarrow> ts)
                 @ [\<lparr>view_size = Fin k,
                      view_type = (if d < 0 then takeRight_view else take_view)\<rparr>]))), h)"
  by (simp add: lazy_take_def lazy_drop_take_def size_of_number set_views_def max_def)

lemma wrapper_value_LazyWrapper_array:
  assumes "wrapper_value w h = Some (Inr (Array array), h')"
  shows "wrapper_value (LazyWrapper w acts d f its tc vs) h
           = lazyValue (LazyWrapper w acts d f its tc vs) (Array array) h'"
  using assms by simp

text \<open>The two loops of \<open>P.value()\<close> and \<open>P.take(k).value()\<close>, on a window of length \<open>len\<close>.\<close>

lemma take_loops_filtered:
  assumes "len = NegInf \<or> (\<exists>m. len = Fin m)"
  shows "\<exists>res h1 h2.
           lazy_loop array d isRight (nativeMin len tc) its len index [] h = Some (res, h1)
         \<and> lazy_loop array d isRight (nativeMin len (nativeMin tc (Fin (int k)))) its len index [] h
             = Some (take k res, h2)"
proof (cases "num_lt (Fin 0) len")
  case False
  then have "\<not> num_lt (Fin (int (length ([] :: jsval list)))) (nativeMin len tc)"
    and "\<not> num_lt (Fin (int (length ([] :: jsval list)))) (nativeMin len (nativeMin tc (Fin (int k))))"
    by (simp_all add: not_num_lt_nativeMin)
  then show ?thesis
    by (simp add: lazy_loop_no_run)
next
  case True
  with assms obtain m where m: "len = Fin m" "0 < m" by auto
  then have l: "len = Fin (int (nat m))" by simp
  from lazy_loop_take [of array d isRight "nativeMin len tc" its "nat m" index "[]" h]
  obtain res h1 where
    a: "lazy_loop array d isRight (nativeMin len tc) its (Fin (int (nat m))) index [] h = Some (res, h1)"
    and b: "\<And>k. \<exists>h2. lazy_loop array d isRight (nativeMin (nativeMin len tc) (Fin (int k))) its
                        (Fin (int (nat m))) index [] h = Some (take k res, h2)"
    by auto
  from b [of k] obtain h2 where
    "lazy_loop array d isRight (nativeMin (nativeMin len tc) (Fin (int k))) its
       (Fin (int (nat m))) index [] h = Some (take k res, h2)" by blast
  with a show ?thesis
    unfolding nativeMin_assoc_Fin l [symmetric] by blast
qed

lemma take_loops_unfiltered:
  assumes "len = NegInf \<or> (\<exists>m. len = Fin m)"
    and "\<forall>r\<in>set its. data_type (cells h r) = LAZY_MAP_FLAG"
  shows "\<exists>res h1 h2.
           lazy_loop array d isRight (nativeMin len tc) its len index [] h = Some (res, h1)
         \<and> lazy_loop array d isRight (nativeMin (nativeMin len (Fin (int k))) tc) its
               (nativeMin len (Fin (int k))) index [] h
             = Some (take k res, h2)"
proof (cases "num_lt (Fin 0) len")
  case False
  then have "\<not> num_lt (Fin 0) (nativeMin len (Fin (int k)))"
    by (simp add: not_num_lt_nativeMin)
  with False have "\<not> num_lt (Fin (int (length ([] :: jsval list)))) (nativeMin len tc)"
    and "\<not> num_lt (Fin (int (length ([] :: jsval list))))
           (nativeMin (nativeMin len (Fin (int k))) tc)"
    by (simp_all add: not_num_lt_nativeMin)
  then show ?thesis
    by (simp add: lazy_loop_no_run)
next
  case True
  with assms obtain m where m: "len = Fin m" "0 < m" by auto
  then have l: "len = Fin (int (nat m))" by simp
  have lk: "nativeMin len (Fin (int k)) = Fin (int (min (nat m) (k - length ([] :: jsval list))))"
    using m by simp
  from lazy_loop_maps_take [OF assms(2), of array d isRight "nativeMin len tc" "nat m" index "[]"]
  obtain res where
    a: "lazy_loop array d isRight (nativeMin len tc) its (Fin (int (nat m))) index [] h = Some (res, h)"
    and b: "\<And>k. lazy_loop array d isRight (nativeMin (nativeMin len tc) (Fin (int k))) its
                   (Fin (int (min (nat m) (k - length ([] :: jsval list))))) index [] h
                 = Some (take k res, h)"
    by auto
  have "lazy_loop array d isRight (nativeMin (nativeMin len (Fin (int k))) tc) its
          (nativeMin len (Fin (int k))) index [] h = Some (take k res, h)"
    by (subst nativeMin_Fin_comm, subst lk) (rule b)
  moreover have "lazy_loop array d isRight (nativeMin len tc) its len index [] h = Some (res, h)"
    by (subst (2) l) (rule a)
  ultimately show ?thesis by blast
qed

lemma take_value:
  assumes src: "wrapper_value w h = Some (Inr (Array array), h')"
    and vv: "\<forall>t\<in>set (case vs of None \<Rightarrow> [] | Some ts \<Rightarrow> ts). valid_size (view_size t)"
    and mp: "f \<or> (\<forall>r\<in>set (case its of None \<Rightarrow> [] | Some is \<Rightarrow> is).
                     data_type (cells h r) = LAZY_MAP_FLAG)"
  shows "\<exists>xs h1 h2 T.
           wrapper_value (LazyWrapper w acts d f its tc vs) h = Some (Inr (Array xs), h1)
         \<and> lazy_take (Num (Fin (int n))) (LazyWrapper w acts d f its tc vs) h = (Inr T, h)
         \<and> wrapper_value T h = Some (Inr (Array (take n xs)), h2)"
proof -
  let ?P = "LazyWrapper w acts d f its tc vs"
  let ?s = "fst (view_of ?P array)" and ?e = "snd (view_of ?P array)"
  let ?len = "num_sub ?e ?s"
  let ?idx = "if d < 0 then ?e else num_sub ?s (Fin 1)"
  let ?its = "case its of None \<Rightarrow> [] | Some is \<Rightarrow> is"
  from view_of_bounds [OF vv, of w acts d f its tc array]
  have s: "?s = PosInf \<or> (\<exists>a. ?s = Fin a)" and e: "?e = NegInf \<or> (\<exists>b. ?e = Fin b)"
    by blast+
  from view_len [OF s e] have len: "?len = NegInf \<or> (\<exists>m. ?len = Fin m)" .
  have P: "wrapper_value ?P h
      = map_option (\<lambda>(res, h'). (Inr (Array res), h'))
          (lazy_loop array d (d < 0) (nativeMin ?len tc) ?its ?len ?idx [] h')"
    using src by (simp add: lazyValue_Array iteratees_of_def)
  show ?thesis
  proof (cases f)
    case True
    let ?T = "LazyWrapper w acts d True its (nativeMin tc (Fin (int n))) vs"
    have v: "view_of ?T array = view_of ?P array" by (simp add: view_of_def)
    have T: "wrapper_value ?T h
      = map_option (\<lambda>(res, h'). (Inr (Array res), h'))
          (lazy_loop array d (d < 0) (nativeMin ?len (nativeMin tc (Fin (int n)))) ?its ?len
             ?idx [] h')"
      using src by (simp add: lazyValue_Array iteratees_of_def v)
    from take_loops_filtered [OF len, of array d "d < 0" tc ?its ?idx h' n]
    obtain res h1 h2 where
      "lazy_loop array d (d < 0) (nativeMin ?len tc) ?its ?len ?idx [] h' = Some (res, h1)"
      "lazy_loop array d (d < 0) (nativeMin ?len (nativeMin tc (Fin (int n)))) ?its ?len
         ?idx [] h' = Some (take n res, h2)"
      by blast
    then have "wrapper_value ?P h = Some (Inr (Array res), h1)"
      and "wrapper_value ?T h = Some (Inr (Array (take n res)), h2)"
      unfolding P T by simp_all
    then show ?thesis
      using True by (simp add: lazy_take_filtered)
  next
    case False
    let ?vs = "case vs of None \<Rightarrow> [] | Some ts \<Rightarrow> ts"
    let ?T = "LazyWrapper w acts d False its tc
          (Some (?vs @ [\<lparr>view_size = Fin (int n),
                          view_type = (if d < 0 then takeRight_view else take_view)\<rparr>]))"
    have k: "(0::int) \<le> int n" by simp
    have lenT: "num_sub (snd (view_of ?T array)) (fst (view_of ?T array))
                  = nativeMin ?len (Fin (int n))"
      using view_take [OF s e k]
      by (simp add: view_of_take_view [where w' = w and acts' = acts and d' = d and f' = f
                      and its' = its and tc' = tc]
            view_of_takeRight_view [where w' = w and acts' = acts and d' = d and f' = f
                      and its' = its and tc' = tc])
    have idxT: "(if d < 0 then snd (view_of ?T array) else num_sub (fst (view_of ?T array)) (Fin 1))
                  = ?idx"
      by (simp add: view_of_take_view [where w' = w and acts' = acts and d' = d and f' = f
                      and its' = its and tc' = tc]
            view_of_takeRight_view [where w' = w and acts' = acts and d' = d and f' = f
                      and its' = its and tc' = tc])
    have T: "wrapper_value ?T h
      = map_option (\<lambda>(res, h'). (Inr (Array res), h'))
          (lazy_loop array d (d < 0) (nativeMin (nativeMin ?len (Fin (int n))) tc) ?its
             (nativeMin ?len (Fin (int n))) ?idx [] h')"
      using src lenT idxT by (simp add: lazyValue_Array iteratees_of_def)
    from mp False wrapper_value_type [OF src]
    have maps: "\<forall>r\<in>set ?its. data_type (cells h' r) = LAZY_MAP_FLAG"
      by simp
    from take_loops_unfiltered [OF len maps, of array d "d < 0" tc ?idx n]
    obtain res h1 h2 where
      "lazy_loop array d (d < 0) (nativeMin ?len tc) ?its ?len ?idx [] h' = Some (res, h1)"
      "lazy_loop array d (d < 0) (nativeMin (nativeMin ?len (Fin (int n))) tc) ?its
         (nativeMin ?len (Fin (int n))) ?idx [] h' = Some (take n res, h2)"
      by blast
    then have "wrapper_value ?P h = Some (Inr (Array res), h1)"
      and "wrapper_value ?T h = Some (Inr (Array (take n res)), h2)"
      unfolding P T by simp_all
    then show ?thesis
      using False by (simp add: lazy_take_unfiltered)
  qed
qed


lemma mapped_example_eq:
  "mapped_example =
     (Inr (LazyWrapper (lodash (Array (numbers [1, 2, 3, 4]))) None 1 False (Some [0]) PosInf
        (Some [\<lparr>view_size = Fin 1, view_type = drop_view\<rparr>])),
      snd mapped_example)"
  "data_type (cells (snd mapped_example) 0) = LAZY_MAP_FLAG"
  by (simp_all add: mapped_example_def lazy_map_def lazy_drop_def lazy_drop_take_def
      lazy_iteratee_method_def lazy_source_def new_LazyWrapper_def heap_new_def set_iteratees_def
      set_filtered_def set_views_def size_of_number empty_heap_def)

lemma lodash_value: "wrapper_value (lodash v) h = Some (Inr v, h)"
  by (simp add: lodash_def baseWrapperValue_def)

subsection \<open>Wrappers the chain methods build\<close>

text \<open>
  \<open>buildable\<close> holds of a fresh lazy wrapper over a source, every iteratee method, \<open>drop\<close>,
  \<open>take\<close> and \<open>reverse\<close> keep it, and so does an evaluation, which neither creates an entry
  nor changes the type of one.
\<close>

lemma buildable_source: "buildable (lazy_source array) h"
  by (simp add: buildable_def lazy_source_def new_LazyWrapper_def)

lemma buildable_iteratee_method:
  assumes "buildable (LazyWrapper w acts d f its tc vs) h"
  shows "buildable (fst (lazy_iteratee_method ty it (LazyWrapper w acts d f its tc vs) h))
           (snd (lazy_iteratee_method ty it (LazyWrapper w acts d f its tc vs) h))"
  using assms
  by (cases ty)
     (auto simp: buildable_def lazy_iteratee_method_def new_LazyWrapper_def heap_new_def
        set_iteratees_def set_filtered_def split: option.splits)

lemma buildable_drop_take:
  assumes "buildable (LazyWrapper w acts d f its tc vs) h"
    and "lazy_drop_take isTake n (LazyWrapper w acts d f its tc vs) h = (Inr result, h')"
  shows "buildable result h'"
proof (cases "size_of n")
  case (Inl e)
  with assms(2) show ?thesis
    by (simp add: lazy_drop_take_def Let_def split: prod.splits)
next
  case (Inr s)
  with assms size_of_valid [OF Inr] show ?thesis
    by (auto simp: buildable_def lazy_drop_take_def lazy_dropWhile_def lazy_iteratee_method_def
          new_LazyWrapper_def heap_new_def heap_set_def set_iteratees_def set_filtered_def
          set_takeCount_def set_views_def Let_def split: option.splits if_splits)
qed

lemma buildable_reverse:
  assumes "buildable (LazyWrapper w acts d f its tc vs) h"
  shows "buildable (lazyReverse (LazyWrapper w acts d f its tc vs)) h"
  using assms
  by (cases f) (simp_all add: buildable_def lazyReverse_filtered lazyReverse_unfiltered)

lemma run_entry_next_ref:
  "next_ref (snd (run_entry isRight idx r v h)) = next_ref h"
  by (simp add: run_entry_def Let_def heap_set_def)

lemma run_iteratees_next_ref:
  "next_ref (snd (run_iteratees isRight idx its v h)) = next_ref h"
proof (induction its arbitrary: v h)
  case Nil
  show ?case by simp
next
  case (Cons r its)
  obtain out h' where s: "run_entry isRight idx r v h = (out, h')"
    by (cases "run_entry isRight idx r v h")
  then have "next_ref h' = next_ref h"
    using run_entry_next_ref [of isRight idx r v h] by simp
  then show ?case
    using s Cons.IH by (cases out) simp_all
qed

lemma lazy_loop_next_ref:
  assumes "lazy_loop array d isRight tc its len index acc h = Some y"
  shows "next_ref (snd y) = next_ref h"
proof (rule lazy_loop.raw_induct
    [where P = "\<lambda>_ _ _ _ _ _ _ _ h y. next_ref (snd y) = next_ref h",
     OF _ assms], goal_cases)
  case (1 loop array d isRight tc its len index result h y)
  let ?i = "num_add index (Fin d)"
  obtain out h' where s: "run_iteratees isRight ?i its (array_get array ?i) h = (out, h')"
    by (cases "run_iteratees isRight ?i its (array_get array ?i) h")
  then have t: "next_ref h' = next_ref h"
    using run_iteratees_next_ref [of isRight ?i its "array_get array ?i" h] by simp
  show ?case
  proof (cases "num_truthy len \<and> num_lt (Fin (int (length result))) tc")
    case False
    with 1(2) show ?thesis by auto
  next
    case True
    show ?thesis
    proof (cases out)
      case (Emit v)
      with True 1(2) s have "loop array d isRight tc its (num_sub len (Fin 1)) ?i (result @ [v]) h' = Some y"
        by simp
      from 1(1) [OF this] t show ?thesis by simp
    next
      case ContinueOuter
      with True 1(2) s have "loop array d isRight tc its (num_sub len (Fin 1)) ?i result h' = Some y"
        by simp
      from 1(1) [OF this] t show ?thesis by simp
    next
      case BreakOuter
      with True 1(2) s t show ?thesis by auto
    qed
  qed
qed

lemma lazyValue_next_ref:
  assumes "lazyValue this v h = Some (r, h')"
  shows "next_ref h' = next_ref h"
proof (cases v)
  case (Array xs)
  with assms obtain res where
    "lazy_loop xs (dir this) (dir this < 0)
       (nativeMin (num_sub (snd (view_of this xs)) (fst (view_of this xs))) (takeCount this))
       (iteratees_of this)
       (num_sub (snd (view_of this xs)) (fst (view_of this xs)))
       (if dir this < 0 then snd (view_of this xs) else num_sub (fst (view_of this xs)) (Fin 1))
       [] h = Some (res, h')"
    by (auto simp: lazyValue_Array split: prod.splits)
  from lazy_loop_next_ref [OF this] show ?thesis by simp
qed (use assms in \<open>simp_all add: lazyValue_def\<close>)

lemma wrapper_value_next_ref:
  "wrapper_value w h = Some (r, h') \<Longrightarrow> next_ref h' = next_ref h"
proof (induction w h arbitrary: r h' rule: wrapper_value.induct)
  case (1 v h)
  then show ?case by simp
next
  case (2 w acts c h)
  show ?case
  proof (cases w)
    case (Plain v)
    with 2(2) show ?thesis by simp
  next
    case (LodashWrapper w' acts' c')
    with 2(2) show ?thesis by simp
  next
    case (LazyWrapper w0 a0 d0 f0 i0 t0 v0)
    show ?thesis
    proof (cases "wrapper_value w h")
      case None
      with 2(2) LazyWrapper show ?thesis by simp
    next
      case (Some p)
      obtain r0 h0 where p: "p = (r0, h0)" by (cases p)
      from 2(1) [OF LazyWrapper, of r0 h0] Some p
      have t: "next_ref h0 = next_ref h" by simp
      from 2(2) LazyWrapper Some p have "h' = h0"
        by (cases r0) (simp_all del: wrapper_value.simps(3))
      with t show ?thesis by simp
    qed
  qed
next
  case (3 w acts d f its tc vs h)
  show ?case
  proof (cases "wrapper_value w h")
    case None
    with 3(2) show ?thesis by simp
  next
    case (Some p)
    obtain r0 h0 where p: "p = (r0, h0)" by (cases p)
    from 3(1) [of r0 h0] Some p have t: "next_ref h0 = next_ref h" by simp
    show ?thesis
    proof (cases r0)
      case (Inl e)
      with 3(2) Some p t show ?thesis by simp
    next
      case (Inr v)
      with 3(2) Some p have "lazyValue (LazyWrapper w acts d f its tc vs) v h0 = Some (r, h')"
        by simp
      from lazyValue_next_ref [OF this] t show ?thesis by simp
    qed
  qed
qed


lemma buildable_value:
  assumes "buildable this h" and "wrapper_value w h = Some (r, h')"
  shows "buildable this h'"
  using assms(1) wrapper_value_type [OF assms(2)] wrapper_value_next_ref [OF assms(2)]
  by (simp add: buildable_def)

text \<open>
  Claim C4 (take-count bound): for an array-backed pipeline \<open>P\<close> and \<open>n \<ge> 0\<close>,
  \<open>P.take(n).value()\<close> has at most \<open>n\<close> elements, and exactly \<open>n\<close> when the upstream
  sequence \<open>P.value()\<close> supplies at least \<open>n\<close>. \<open>P\<close> is any lazy wrapper whose source
  evaluates to an array, whose views carry sizes that \<open>size_of\<close> returns, and which is
  filtered or holds map entries only (\<open>map\<close> is the one iteratee method that leaves
  \<open>__filtered__\<close> unset, so the chain methods build no other: the last two conditions are
  those of \<open>buildable\<close>). From any store, both
  calls of \<open>value()\<close> return, \<open>take\<close> leaves the store alone, and
  \<open>P.take(k).value()\<close> is the first \<open>k\<close> elements of \<open>P.value()\<close>.
\<close>

theorem take_count_bound:
  assumes "wrapper_value w h = Some (Inr (Array array), h')"
    and "\<forall>t\<in>set (case vs of None \<Rightarrow> [] | Some ts \<Rightarrow> ts). valid_size (view_size t)"
    and "f \<or> (\<forall>r\<in>set (case its of None \<Rightarrow> [] | Some is \<Rightarrow> is).
                 data_type (cells h r) = LAZY_MAP_FLAG)"
    and "0 \<le> k"
  shows "\<exists>xs ys h1 h2 T.
           wrapper_value (LazyWrapper w acts d f its tc vs) h = Some (Inr (Array xs), h1)
         \<and> lazy_take (Num (Fin k)) (LazyWrapper w acts d f its tc vs) h = (Inr T, h)
         \<and> wrapper_value T h = Some (Inr (Array ys), h2)
         \<and> ys = take (nat k) xs
         \<and> length ys \<le> nat k
         \<and> (length ys = nat k \<longleftrightarrow> nat k \<le> length xs)"
proof -
  from assms(4) have k: "int (nat k) = k" by simp
  from take_value [OF assms(1-3), of acts d tc "nat k"] obtain xs h1 h2 T where
    a: "wrapper_value (LazyWrapper w acts d f its tc vs) h = Some (Inr (Array xs), h1)"
    and b: "lazy_take (Num (Fin k)) (LazyWrapper w acts d f its tc vs) h = (Inr T, h)"
    and c: "wrapper_value T h = Some (Inr (Array (take (nat k) xs)), h2)"
    unfolding k by blast
  have "length (take (nat k) xs) \<le> nat k"
    and "length (take (nat k) xs) = nat k \<longleftrightarrow> nat k \<le> length xs"
    by auto
  with a b c show ?thesis by blast
qed

theorem take_count_bound_witness:
  "result_of (wrapper_value (fst filtered_example) (snd filtered_example))
     = Some (Inr (Array (numbers [2, 4])))
   \<and> result_of (chain_value
         (lazy_take (Num (Fin 1)) (fst filtered_example) (snd filtered_example)))
     = Some (Inr (Array (numbers [2])))
   \<and> result_of (chain_value mapped_example)
     = Some (Inr (Array (numbers [20, 30, 40])))
   \<and> result_of (chain_value (chain_then mapped_example (lazy_take (Num (Fin 2)))))
     = Some (Inr (Array (numbers [20, 30])))
   \<and> result_of (chain_value (chain_then mapped_example (lazy_take (Num (Fin 5)))))
     = Some (Inr (Array (numbers [20, 30, 40])))"
proof -
  let ?F = "LazyWrapper (lodash (Array (numbers [1, 2, 3, 4]))) None 1 True (Some [0]) PosInf None"
  let ?M = "LazyWrapper (lodash (Array (numbers [1, 2, 3, 4]))) None 1 False (Some [0]) PosInf
        (Some [\<lparr>view_size = Fin 1, view_type = drop_view\<rparr>])"
  have F: "fst filtered_example = ?F" by (subst filtered_example_eq) simp
  have M: "mapped_example = (Inr ?M, snd mapped_example)" by (rule mapped_example_eq(1))
  have f: "result_of (wrapper_value ?F (snd filtered_example))
             = Some (Inr (Array (numbers [2, 4])))"
    unfolding F [symmetric] by code_simp
  have "result_of (chain_value mapped_example) = Some (Inr (Array (numbers [20, 30, 40])))"
    by code_simp
  then have m: "result_of (wrapper_value ?M (snd mapped_example))
             = Some (Inr (Array (numbers [20, 30, 40])))"
    by (subst (asm) M) (simp add: chain_value_def del: wrapper_value.simps)
  have vF: "\<forall>t\<in>set (case None of None \<Rightarrow> [] | Some ts \<Rightarrow> ts). valid_size (view_size t)"
    by simp
  have vM: "\<forall>t\<in>set (case Some [\<lparr>view_size = Fin 1, view_type = drop_view\<rparr>] of
                        None \<Rightarrow> [] | Some ts \<Rightarrow> ts). valid_size (view_size t)"
    by (simp add: valid_size_def)
  have mF: "True \<or> (\<forall>r\<in>set (case Some [0] of None \<Rightarrow> [] | Some is \<Rightarrow> is).
                 data_type (cells (snd filtered_example) r) = LAZY_MAP_FLAG)"
    by simp
  have mM: "False \<or> (\<forall>r\<in>set (case Some [0] of None \<Rightarrow> [] | Some is \<Rightarrow> is).
                 data_type (cells (snd mapped_example) r) = LAZY_MAP_FLAG)"
    by (simp add: mapped_example_eq(2))
  have t: "take (nat 1) (numbers [2, 4]) = numbers [2]"
    "take (nat 2) (numbers [20, 30, 40]) = numbers [20, 30]"
    "take (nat 5) (numbers [20, 30, 40]) = numbers [20, 30, 40]"
    by (simp_all add: numbers_def)
  have sF: "wrapper_value (lodash (Array (numbers [1, 2, 3, 4]))) (snd filtered_example)
              = Some (Inr (Array (numbers [1, 2, 3, 4])), snd filtered_example)"
    and sM: "wrapper_value (lodash (Array (numbers [1, 2, 3, 4]))) (snd mapped_example)
              = Some (Inr (Array (numbers [1, 2, 3, 4])), snd mapped_example)"
    by (rule lodash_value)+
  have a: "result_of (chain_value (lazy_take (Num (Fin 1)) ?F (snd filtered_example)))
             = Some (Inr (Array (numbers [2])))"
  proof -
    from take_count_bound [OF sF vF mF, where k = 1 and acts = None and d = 1 and tc = PosInf]
    obtain xs ys h1 h2 T where
      1: "wrapper_value ?F (snd filtered_example) = Some (Inr (Array xs), h1)"
      and 2: "lazy_take (Num (Fin 1)) ?F (snd filtered_example) = (Inr T, snd filtered_example)"
      and 3: "wrapper_value T (snd filtered_example) = Some (Inr (Array ys), h2)"
      and 4: "ys = take (nat 1) xs"
      by auto
    from f 1 have "xs = numbers [2, 4]"
      by (simp add: result_of_def del: wrapper_value.simps)
    with 2 3 4 t(1) show ?thesis
      by (simp add: result_of_def chain_value_def del: wrapper_value.simps)
  qed
  have b: "result_of (chain_value (lazy_take (Num (Fin 2)) ?M (snd mapped_example)))
             = Some (Inr (Array (numbers [20, 30])))"
  proof -
    from take_count_bound [OF sM vM mM, where k = 2 and acts = None and d = 1 and tc = PosInf]
    obtain xs ys h1 h2 T where
      1: "wrapper_value ?M (snd mapped_example) = Some (Inr (Array xs), h1)"
      and 2: "lazy_take (Num (Fin 2)) ?M (snd mapped_example) = (Inr T, snd mapped_example)"
      and 3: "wrapper_value T (snd mapped_example) = Some (Inr (Array ys), h2)"
      and 4: "ys = take (nat 2) xs"
      by auto
    from m 1 have "xs = numbers [20, 30, 40]"
      by (simp add: result_of_def del: wrapper_value.simps)
    with 2 3 4 t(2) show ?thesis
      by (simp add: result_of_def chain_value_def del: wrapper_value.simps)
  qed
  have c: "result_of (chain_value (lazy_take (Num (Fin 5)) ?M (snd mapped_example)))
             = Some (Inr (Array (numbers [20, 30, 40])))"
  proof -
    from take_count_bound [OF sM vM mM, where k = 5 and acts = None and d = 1 and tc = PosInf]
    obtain xs ys h1 h2 T where
      1: "wrapper_value ?M (snd mapped_example) = Some (Inr (Array xs), h1)"
      and 2: "lazy_take (Num (Fin 5)) ?M (snd mapped_example) = (Inr T, snd mapped_example)"
      and 3: "wrapper_value T (snd mapped_example) = Some (Inr (Array ys), h2)"
      and 4: "ys = take (nat 5) xs"
      by auto
    from m 1 have "xs = numbers [20, 30, 40]"
      by (simp add: result_of_def del: wrapper_value.simps)
    with 2 3 4 t(3) show ?thesis
      by (simp add: result_of_def chain_value_def del: wrapper_value.simps)
  qed
  have mt: "chain_then mapped_example (lazy_take (Num (Fin 2)))
              = lazy_take (Num (Fin 2)) ?M (snd mapped_example)"
    "chain_then mapped_example (lazy_take (Num (Fin 5)))
              = lazy_take (Num (Fin 5)) ?M (snd mapped_example)"
    by (subst M, simp add: chain_then_def)+
  have mv: "chain_value mapped_example = wrapper_value ?M (snd mapped_example)"
    by (subst M) (simp add: chain_value_def del: wrapper_value.simps)
  from f m a b c show ?thesis
    unfolding F mt mv by simp
qed

end
